theory Spec2Isabelle
  imports Main "HOL-Library.Word" "HOL-Library.While_Combinator"
begin

section \<open>JavaScript strings and numbers\<close>

text \<open>
  A JavaScript string is a finite sequence of UTF-16 code units. \<open>s[k]\<close> is the
  one-unit string at position \<open>k\<close>, or \<open>undefined\<close> when \<open>k\<close> is out of range;
  \<open>===\<close> on two such values is equality of code units, and \<open>undefined === undefined\<close>
  holds. \<open>s.charCodeAt(k)\<close> is the code unit as a number.
\<close>

type_synonym jschar = "16 word"
type_synonym jsstring = "jschar list"

definition js :: "string \<Rightarrow> jsstring" where
  "js s = map (\<lambda>c. of_nat (of_char c)) s"

definition js_at :: "jsstring \<Rightarrow> nat \<Rightarrow> jschar option" where
  "js_at s k = (if k < length s then Some (s ! k) else None)"

definition charCodeAt :: "jsstring \<Rightarrow> nat \<Rightarrow> int" where
  "charCodeAt s k = int (unat (s ! k))"

text \<open>
  The \<open>%\<close> operator of JavaScript truncates: the remainder has the sign of the
  dividend. All numbers of the hashing code are integers far below \<open>2^53\<close>, so
  they are modelled as \<open>int\<close>.
\<close>

definition js_rem :: "int \<Rightarrow> int \<Rightarrow> int" where
  "js_rem a b = sgn a * (\<bar>a\<bar> mod \<bar>b\<bar>)"

section \<open>Naive matcher (script.js, naiveStringMatching)\<close>

text \<open>The inner loop over \<open>j\<close>: the value of \<open>match\<close> when the loop is left.\<close>

function window_loop :: "jsstring \<Rightarrow> jsstring \<Rightarrow> nat \<Rightarrow> nat \<Rightarrow> bool" where
  "window_loop text pattern i j =
     (if j < length pattern
      then (if js_at text (i + j) \<noteq> js_at pattern j then False
            else window_loop text pattern i (j + 1))
      else True)"
  by pat_completeness auto
termination
  by (relation "measure (\<lambda>(text, pattern, i, j). length pattern - j)") auto

declare window_loop.simps [simp del]

text \<open>The outer loop \<open>for (let i = 0; i <= n - m; i++)\<close>; \<open>n - m\<close> may be negative.\<close>

function naive_loop :: "jsstring \<Rightarrow> jsstring \<Rightarrow> nat \<Rightarrow> nat list \<Rightarrow> nat list" where
  "naive_loop text pattern i matches =
     (if int i \<le> int (length text) - int (length pattern)
      then naive_loop text pattern (i + 1)
             (if window_loop text pattern i 0 then matches @ [i] else matches)
      else matches)"
  by pat_completeness auto
termination
  by (relation "measure (\<lambda>(text, pattern, i, matches). Suc (length text) - i)") auto

declare naive_loop.simps [simp del]

definition naiveStringMatching :: "jsstring \<Rightarrow> jsstring \<Rightarrow> nat list" where
  "naiveStringMatching text pattern =
     (if pattern = [] \<or> text = [] \<or> length pattern > length text then []
      else naive_loop text pattern 0 [])"

section \<open>Naive matcher of the older sentiment page (script.js, naiveSearch)\<close>

text \<open>
  The same two loops, with the inner loop's counter \<open>j\<close> inspected after the loop
  and with no test of the arguments before the loops.
\<close>

function naiveSearch_inner :: "jsstring \<Rightarrow> jsstring \<Rightarrow> nat \<Rightarrow> nat \<Rightarrow> nat" where
  "naiveSearch_inner text pattern i j =
     (if j < length pattern
      then (if js_at text (i + j) \<noteq> js_at pattern j then j
            else naiveSearch_inner text pattern i (j + 1))
      else j)"
  by pat_completeness auto
termination
  by (relation "measure (\<lambda>(text, pattern, i, j). length pattern - j)") auto

declare naiveSearch_inner.simps [simp del]

function naiveSearch_loop :: "jsstring \<Rightarrow> jsstring \<Rightarrow> nat \<Rightarrow> nat list \<Rightarrow> nat list" where
  "naiveSearch_loop text pattern i matches =
     (if int i \<le> int (length text) - int (length pattern)
      then naiveSearch_loop text pattern (i + 1)
             (if naiveSearch_inner text pattern i 0 = length pattern
              then matches @ [i] else matches)
      else matches)"
  by pat_completeness auto
termination
  by (relation "measure (\<lambda>(text, pattern, i, matches). Suc (length text) - i)") auto

declare naiveSearch_loop.simps [simp del]

definition naiveSearch :: "jsstring \<Rightarrow> jsstring \<Rightarrow> nat list" where
  "naiveSearch text pattern = naiveSearch_loop text pattern 0 []"

section \<open>KMP (script.js, computeLPS and kmpStringMatching)\<close>

text \<open>
  The state of the loop of \<open>computeLPS\<close> is \<open>(i, len, lps)\<close>. Every write
  \<open>lps[i] = v\<close> happens under \<open>i < m\<close>, inside the array, and every read
  \<open>lps[len - 1]\<close> happens with \<open>1 \<le> len < i\<close> (\<open>lps_inv\<close> below is kept by the
  loop). The loop is a \<open>while_option\<close>: \<open>None\<close> would be a run that never ends.
\<close>

definition lps_step :: "jsstring \<Rightarrow> nat \<times> nat \<times> nat list \<Rightarrow> nat \<times> nat \<times> nat list" where
  "lps_step pattern = (\<lambda>(i, len, lps).
     if js_at pattern i = js_at pattern len
     then (i + 1, len + 1, lps[i := len + 1])
     else if len \<noteq> 0 then (i, lps ! (len - 1), lps)
     else (i + 1, len, lps[i := 0]))"

definition computeLPS :: "jsstring \<Rightarrow> nat list option" where
  "computeLPS pattern =
     map_option (\<lambda>(i, len, lps). lps)
       (while_option (\<lambda>(i, len, lps). i < length pattern) (lps_step pattern)
          (1, 0, replicate (length pattern) 0))"

text \<open>
  The state of the search loop is \<open>(i, j, matches)\<close>. In the runs of
  \<open>kmpStringMatching\<close> the reads \<open>lps[j - 1]\<close> happen with \<open>1 \<le> j \<le> m\<close> and
  \<open>i - j\<close> is never negative (\<open>kmp_inv\<close> below).
\<close>

definition kmp_step ::
  "jsstring \<Rightarrow> jsstring \<Rightarrow> nat list \<Rightarrow> nat \<times> nat \<times> nat list \<Rightarrow> nat \<times> nat \<times> nat list" where
  "kmp_step text pattern lps = (\<lambda>(i, j, matches).
     let (i1, j1) = (if js_at text i = js_at pattern j then (i + 1, j + 1) else (i, j))
     in if j1 = length pattern then (i1, lps ! (j1 - 1), matches @ [i1 - j1])
        else if i1 < length text \<and> js_at text i1 \<noteq> js_at pattern j1
        then (if j1 \<noteq> 0 then (i1, lps ! (j1 - 1), matches) else (i1 + 1, j1, matches))
        else (i1, j1, matches))"

definition kmp_loop ::
  "jsstring \<Rightarrow> jsstring \<Rightarrow> nat list \<Rightarrow> nat \<times> nat \<times> nat list \<Rightarrow> (nat \<times> nat \<times> nat list) option" where
  "kmp_loop text pattern lps =
     while_option (\<lambda>(i, j, matches). i < length text) (kmp_step text pattern lps)"

definition kmpStringMatching :: "jsstring \<Rightarrow> jsstring \<Rightarrow> nat list option" where
  "kmpStringMatching text pattern =
     (if pattern = [] \<or> text = [] then Some []
      else if length pattern = 0 then Some []
      else case computeLPS pattern of
             None \<Rightarrow> None
           | Some lps \<Rightarrow>
               map_option (\<lambda>(i, j, matches). matches) (kmp_loop text pattern lps (0, 0, [])))"

section \<open>Rabin-Karp (script.js, rabinKarpStringMatching)\<close>

definition prime :: int where "prime = 101"
definition base :: int where "base = 256"

text \<open>\<open>h = base^(m-1) % prime\<close>, by \<open>m - 1\<close> multiplications.\<close>

definition rk_h :: "nat \<Rightarrow> int" where
  "rk_h m = fold (\<lambda>i h. js_rem (h * base) prime) [0..<m - 1] 1"

text \<open>
  The initial hash of the first \<open>m\<close> code units of a string. The matcher calls it
  with \<open>m \<le> n\<close>, and rolls the hash only under \<open>i < n - m\<close>, so every
  \<open>charCodeAt\<close> reads inside the string.
\<close>

definition rk_init :: "jsstring \<Rightarrow> nat \<Rightarrow> int" where
  "rk_init s m = fold (\<lambda>i hash. js_rem (base * hash + charCodeAt s i) prime) [0..<m] 0"

text \<open>The update of \<open>textHash\<close> for the next window, with the repair of a negative value.\<close>

definition rk_roll :: "jsstring \<Rightarrow> nat \<Rightarrow> int \<Rightarrow> nat \<Rightarrow> int \<Rightarrow> int" where
  "rk_roll text m h i textHash =
     (let t = js_rem (base * (textHash - charCodeAt text i * h) + charCodeAt text (i + m)) prime
      in if t < 0 then t + prime else t)"

text \<open>One pass of the sliding loop at window start \<open>i\<close>, on the state \<open>(textHash, matches)\<close>.\<close>

definition rk_step :: "jsstring \<Rightarrow> jsstring \<Rightarrow> int \<Rightarrow> int \<Rightarrow> nat \<Rightarrow> int \<times> nat list \<Rightarrow> int \<times> nat list" where
  "rk_step text pattern h patternHash i = (\<lambda>(textHash, matches).
     let matches' = (if patternHash = textHash \<and> window_loop text pattern i 0
                     then matches @ [i] else matches);
         textHash' = (if int i < int (length text) - int (length pattern)
                      then rk_roll text (length pattern) h i textHash else textHash)
     in (textHash', matches'))"

text \<open>
  The sliding loop \<open>for (let i = 0; i <= n - m; i++)\<close>. Its body, \<open>rk_step\<close>, does
  not assign \<open>i\<close> and has no \<open>break\<close>, so the loop applies the body at
  \<open>i = 0, 1, \<dots>\<close> in turn. \<open>rk_loop text pattern k\<close> is the state after the first
  \<open>k\<close> passes, that is, the state in which the loop reaches window \<open>k\<close>. The
  loop makes \<open>n - m + 1\<close> passes.
\<close>

definition rk_loop :: "jsstring \<Rightarrow> jsstring \<Rightarrow> nat \<Rightarrow> int \<times> nat list" where
  "rk_loop text pattern k =
     (let m = length pattern
      in fold (rk_step text pattern (rk_h m) (rk_init pattern m)) [0..<k] (rk_init text m, []))"

definition rabinKarpStringMatching :: "jsstring \<Rightarrow> jsstring \<Rightarrow> nat list" where
  "rabinKarpStringMatching text pattern =
     (if pattern = [] \<or> text = [] \<or> length pattern > length text then []
      else snd (rk_loop text pattern (nat (int (length text) - int (length pattern) + 1))))"

section \<open>Horspool (script.js, horspoolStringMatching)\<close>

text \<open>
  The shift table is an object keyed by one-unit strings; a key read that finds nothing
  gives \<open>undefined\<close>, here \<open>None\<close>.
\<close>

definition shiftTable :: "'a list \<Rightarrow> ('a \<rightharpoonup> nat)" where
  "shiftTable pattern =
     fold (\<lambda>i tbl. tbl(pattern ! i \<mapsto> length pattern - 1 - i)) [0..<length pattern - 1] Map.empty"

text \<open>The right-to-left comparison; \<open>j\<close> ends at \<open>-1\<close> on a full match.\<close>

function horspool_scan :: "jsstring \<Rightarrow> jsstring \<Rightarrow> nat \<Rightarrow> int \<Rightarrow> int" where
  "horspool_scan text pattern i j =
     (if j \<ge> 0 \<and> js_at text (i + nat j) = js_at pattern (nat j)
      then horspool_scan text pattern i (j - 1) else j)"
  by pat_completeness auto
termination
  by (relation "measure (\<lambda>(text, pattern, i, j). nat (j + 1))") auto

declare horspool_scan.simps [simp del]

definition horspool_shift :: "jsstring \<Rightarrow> jsstring \<Rightarrow> (jschar \<rightharpoonup> nat) \<Rightarrow> nat \<Rightarrow> nat" where
  "horspool_shift text pattern tbl i =
     (case js_at text (i + length pattern - 1) of
        None \<Rightarrow> length pattern
      | Some c \<Rightarrow> (case tbl c of None \<Rightarrow> length pattern | Some shift \<Rightarrow> shift))"

definition horspool_step ::
  "jsstring \<Rightarrow> jsstring \<Rightarrow> (jschar \<rightharpoonup> nat) \<Rightarrow> nat \<times> nat list \<Rightarrow> nat \<times> nat list" where
  "horspool_step text pattern tbl = (\<lambda>(i, matches).
     if horspool_scan text pattern i (int (length pattern) - 1) < 0
     then (i + 1, matches @ [i])
     else (i + horspool_shift text pattern tbl i, matches))"

definition horspool_loop ::
  "jsstring \<Rightarrow> jsstring \<Rightarrow> (jschar \<rightharpoonup> nat) \<Rightarrow> nat \<times> nat list \<Rightarrow> (nat \<times> nat list) option" where
  "horspool_loop text pattern tbl =
     while_option (\<lambda>(i, matches). int i \<le> int (length text) - int (length pattern))
       (horspool_step text pattern tbl)"

definition horspoolStringMatching :: "jsstring \<Rightarrow> jsstring \<Rightarrow> nat list option" where
  "horspoolStringMatching text pattern =
     (if pattern = [] \<or> text = [] \<or> length pattern > length text then Some []
      else map_option snd (horspool_loop text pattern (shiftTable pattern) (0, [])))"

section \<open>KMP of the movie search (search.js, kmpStringMatching)\<close>

text \<open>
  \<open>computeLPS\<close> and the search loop of search.js are the code of script.js again;
  the matcher lower-cases both arguments first. \<open>String.prototype.toLowerCase\<close> is
  a function of the language, not of this program: it is the parameter
  \<open>toLowerCase\<close> of the model, and nothing is assumed of it (it may change the
  length of a string, as the mapping of U+0130 does).
\<close>

definition kmpStringMatching_search ::
  "(jsstring \<Rightarrow> jsstring) \<Rightarrow> jsstring \<Rightarrow> jsstring \<Rightarrow> nat list option" where
  "kmpStringMatching_search toLowerCase text pattern =
     (if pattern = [] \<or> text = [] then Some []
      else let lowerText = toLowerCase text; lowerPattern = toLowerCase pattern
           in if length lowerPattern = 0 \<or> length lowerPattern > length lowerText then Some []
              else case computeLPS lowerPattern of
                     None \<Rightarrow> None
                   | Some lps \<Rightarrow>
                       map_option (\<lambda>(i, j, matches). matches)
                         (kmp_loop lowerText lowerPattern lps (0, 0, [])))"

text \<open>
  On a string of ASCII code units \<open>toLowerCase\<close> adds 32 to the letters \<open>A\<close> to
  \<open>Z\<close> and changes nothing else. \<open>toLowerCase_ascii\<close> is that function; it stands
  for \<open>toLowerCase\<close> on such strings only.
\<close>

definition toLowerCase_ascii :: "jsstring \<Rightarrow> jsstring" where
  "toLowerCase_ascii s = map (\<lambda>c. if 0x41 \<le> c \<and> c \<le> 0x5A then c + 0x20 else c) s"

section \<open>The C++ program (Mathcing_Algorithms.cpp)\<close>

text \<open>A \<open>std::string\<close> is a sequence of bytes.\<close>

type_synonym cppstring = "8 word list"

definition bytes :: "string \<Rightarrow> cppstring" where
  "bytes s = map (\<lambda>c. of_nat (of_char c)) s"

text \<open>
  \<open>horspoolHelper\<close> runs over every position of the pattern; at the last position it
  stores the pattern length, unless the character already has an entry.
\<close>

definition horspoolHelper :: "cppstring \<Rightarrow> (8 word \<rightharpoonup> nat)" where
  "horspoolHelper pattern =
     fold (\<lambda>i values.
             if i = length pattern - 1
             then (if values (pattern ! i) = None
                   then values(pattern ! i \<mapsto> length pattern) else values)
             else values(pattern ! i \<mapsto> length pattern - i - 1))
       [0..<length pattern] Map.empty"


text \<open>
  The pointer version of \<open>naiveStringMatching\<close>: \<open>ptr_s\<close> is advanced in every pass
  and so always points at \<open>text[i]\<close>; the state is the offset \<open>f\<close> of \<open>ptr_f\<close> in
  the pattern and the list \<open>found_in\<close>. With an empty pattern the function forms
  \<open>&pattern[-1]\<close>, which C++ leaves undefined: the model gives \<open>None\<close> there.
\<close>

definition cpp_naive_step :: "cppstring \<Rightarrow> cppstring \<Rightarrow> nat \<Rightarrow> nat \<times> nat list \<Rightarrow> nat \<times> nat list" where
  "cpp_naive_step text pattern i = (\<lambda>(f, found_in).
     if text ! i = pattern ! f
     then (if f = length pattern - 1
           then (0, found_in @ [i - (length pattern - 1)])
           else (f + 1, found_in))
     else (0, found_in))"

definition cpp_naiveStringMatching :: "cppstring \<Rightarrow> cppstring \<Rightarrow> nat list option" where
  "cpp_naiveStringMatching text pattern =
     (if pattern = [] then None
      else Some (snd (fold (cpp_naive_step text pattern) [0..<length text] (0, []))))"

section \<open>Specification notions and invariants\<close>

definition occurs_at :: "'a list \<Rightarrow> 'a list \<Rightarrow> nat \<Rightarrow> bool" where
  "occurs_at text pattern i \<longleftrightarrow>
     i + length pattern \<le> length text \<and> (\<forall>j<length pattern. text ! (i + j) = pattern ! j)"

definition occurrences :: "'a list \<Rightarrow> 'a list \<Rightarrow> nat list" where
  "occurrences text pattern =
     filter (occurs_at text pattern) [0..<Suc (length text) - length pattern]"

definition table_upto :: "'a list \<Rightarrow> nat \<Rightarrow> nat \<Rightarrow> ('a \<rightharpoonup> nat)" where
  "table_upto p m k = fold (\<lambda>i tbl. tbl(p ! i \<mapsto> m - 1 - i)) [0..<k] Map.empty"

definition horspool_inv :: "jsstring \<Rightarrow> jsstring \<Rightarrow> nat \<times> nat list \<Rightarrow> bool" where
  "horspool_inv t p = (\<lambda>(i, matches). matches = filter (occurs_at t p) [0..<i])"

definition horner :: "jsstring \<Rightarrow> int" where
  "horner w = foldl (\<lambda>acc c. base * acc + int (unat c)) 0 w"

definition window :: "jsstring \<Rightarrow> nat \<Rightarrow> nat \<Rightarrow> jsstring" where
  "window t m i = take m (drop i t)"

definition border :: "jsstring \<Rightarrow> nat \<Rightarrow> nat \<Rightarrow> bool" where
  "border p k b \<longleftrightarrow> b \<le> k \<and> (\<forall>x<b. p ! x = p ! (k - b + x))"

definition lpb :: "jsstring \<Rightarrow> nat \<Rightarrow> nat \<Rightarrow> bool" where
  "lpb p k b \<longleftrightarrow> b < k \<and> border p k b \<and> (\<forall>b'. b' < k \<and> border p k b' \<longrightarrow> b' \<le> b)"

definition lps_table :: "jsstring \<Rightarrow> nat list \<Rightarrow> bool" where
  "lps_table p lps \<longleftrightarrow> length lps = length p \<and> (\<forall>k<length p. lpb p (Suc k) (lps ! k))"

definition lps_inv :: "jsstring \<Rightarrow> nat \<times> nat \<times> nat list \<Rightarrow> bool" where
  "lps_inv p = (\<lambda>(i, len, lps).
     1 \<le> i \<and> i \<le> length p \<and> len < i \<and> length lps = length p \<and>
     (\<forall>k<i. lpb p (Suc k) (lps ! k)) \<and> border p i len \<and>
     (\<forall>b. b \<le> i \<and> border p (Suc i) b \<longrightarrow> b \<le> Suc len))"

definition pm :: "jsstring \<Rightarrow> jsstring \<Rightarrow> nat \<Rightarrow> nat \<Rightarrow> bool" where
  "pm t p i j \<longleftrightarrow> j \<le> i \<and> (\<forall>x<j. t ! (i - j + x) = p ! x)"

definition kmp_inv :: "jsstring \<Rightarrow> jsstring \<Rightarrow> nat \<times> nat \<times> nat list \<Rightarrow> bool" where
  "kmp_inv t p = (\<lambda>(i, j, matches).
     i \<le> length t \<and> j < length p \<and> pm t p i j \<and>
     matches = filter (occurs_at t p) [0..<i - j])"

section \<open>Proofs\<close>

subsection \<open>The naive matcher returns the occurrences\<close>

lemma js_at_in_range: "k < length s \<Longrightarrow> js_at s k = Some (s ! k)"
  by (simp add: js_at_def)

lemma window_loop_iff:
  "i + length p \<le> length t \<Longrightarrow>
   window_loop t p i j \<longleftrightarrow> (\<forall>k. j \<le> k \<and> k < length p \<longrightarrow> t ! (i + k) = p ! k)"
proof (induction t p i j rule: window_loop.induct)
  case (1 t p i j)
  show ?case
  proof (cases "j < length p")
    case False
    then show ?thesis by (subst window_loop.simps) auto
  next
    case True
    note lt = this
    show ?thesis
    proof (cases "t ! (i + j) = p ! j")
      case False
      with lt 1(2) have "\<not> window_loop t p i j"
        by (subst window_loop.simps) (simp add: js_at_in_range)
      moreover from False lt have "\<not> (\<forall>k. j \<le> k \<and> k < length p \<longrightarrow> t ! (i + k) = p ! k)"
        by auto
      ultimately show ?thesis by simp
    next
      case True
      with lt 1(2) have a: "window_loop t p i j = window_loop t p i (j + 1)"
        by (subst window_loop.simps) (simp add: js_at_in_range)
      have b: "js_at t (i + j) = js_at p j"
        using True lt 1(2) by (simp add: js_at_in_range)
      have "window_loop t p i (j + 1) \<longleftrightarrow>
            (\<forall>k. j + 1 \<le> k \<and> k < length p \<longrightarrow> t ! (i + k) = p ! k)"
        using 1(1)[OF lt _ 1(2)] b by simp
      also have "\<dots> \<longleftrightarrow> (\<forall>k. j \<le> k \<and> k < length p \<longrightarrow> t ! (i + k) = p ! k)"
        using True by (metis Suc_eq_plus1 Suc_leI le_neq_implies_less Suc_leD)
      finally show ?thesis using a by simp
    qed
  qed
qed

lemma window_loop_occurs:
  "i + length p \<le> length t \<Longrightarrow> window_loop t p i 0 \<longleftrightarrow> occurs_at t p i"
  by (simp add: window_loop_iff occurs_at_def)

lemma naive_loop_filter:
  "naive_loop t p i matches =
     matches @ filter (occurs_at t p) [i..<Suc (length t) - length p]"
proof (induction t p i matches rule: naive_loop.induct)
  case (1 t p i matches)
  show ?case
  proof (cases "int i \<le> int (length t) - int (length p)")
    case False
    then have "[i..<Suc (length t) - length p] = []" by auto
    with False show ?thesis by (subst naive_loop.simps) simp
  next
    case True
    then have le: "i + length p \<le> length t" by linarith
    then have upt: "[i..<Suc (length t) - length p] = i # [i + 1..<Suc (length t) - length p]"
      by (simp add: upt_conv_Cons)
    have "naive_loop t p i matches =
          naive_loop t p (i + 1) (if window_loop t p i 0 then matches @ [i] else matches)"
      using True by (subst naive_loop.simps) simp
    also have "\<dots> = (if window_loop t p i 0 then matches @ [i] else matches) @
                 filter (occurs_at t p) [i + 1..<Suc (length t) - length p]"
      by (rule 1[OF True])
    also have "\<dots> = matches @ filter (occurs_at t p) [i..<Suc (length t) - length p]"
      unfolding upt by (simp add: window_loop_occurs[OF le])
    finally show ?thesis .
  qed
qed

lemma occurrences_short: "length t < length p \<Longrightarrow> occurrences t p = []"
  by (simp add: occurrences_def)

lemma naive_nonempty:
  "p \<noteq> [] \<Longrightarrow> naiveStringMatching t p = occurrences t p"
proof (cases "length p > length t")
  case True
  then show ?thesis by (simp add: naiveStringMatching_def occurrences_short)
next
  case False
  assume "p \<noteq> []"
  with False have "t \<noteq> []" by auto
  with False \<open>p \<noteq> []\<close> show ?thesis
    by (simp add: naiveStringMatching_def occurrences_def naive_loop_filter)
qed

subsection \<open>The shift table and the Horspool loop\<close>

lemma table_upto_0: "table_upto p m 0 = Map.empty"
  by (simp add: table_upto_def)

lemma table_upto_Suc: "table_upto p m (Suc k) = (table_upto p m k)(p ! k \<mapsto> m - 1 - k)"
  by (simp add: table_upto_def)

lemma table_upto_None:
  "table_upto p m k c = None \<longleftrightarrow> (\<forall>i<k. p ! i \<noteq> c)"
proof (induction k)
  case 0
  show ?case by (simp add: table_upto_0)
next
  case (Suc k)
  show ?case
    unfolding table_upto_Suc using Suc by (auto simp: less_Suc_eq)
qed

lemma table_upto_Some:
  "table_upto p m k c = Some s \<longleftrightarrow>
     (\<exists>i<k. p ! i = c \<and> s = m - 1 - i \<and> (\<forall>i'. i < i' \<and> i' < k \<longrightarrow> p ! i' \<noteq> c))"
proof (induction k)
  case 0
  show ?case by (simp add: table_upto_0)
next
  case (Suc k)
  show ?case
  proof (cases "p ! k = c")
    case True
    have "(\<exists>i<Suc k. p ! i = c \<and> s = m - 1 - i \<and> (\<forall>i'. i < i' \<and> i' < Suc k \<longrightarrow> p ! i' \<noteq> c))
          \<longleftrightarrow> s = m - 1 - k"
    proof
      assume "\<exists>i<Suc k. p ! i = c \<and> s = m - 1 - i \<and> (\<forall>i'. i < i' \<and> i' < Suc k \<longrightarrow> p ! i' \<noteq> c)"
      then obtain i where i: "i < Suc k" "s = m - 1 - i" "\<forall>i'. i < i' \<and> i' < Suc k \<longrightarrow> p ! i' \<noteq> c"
        by blast
      from i(3) True have "\<not> i < k" by auto
      with i(1) have "i = k" by simp
      with i(2) show "s = m - 1 - k" by simp
    next
      assume "s = m - 1 - k"
      with True show "\<exists>i<Suc k. p ! i = c \<and> s = m - 1 - i \<and> (\<forall>i'. i < i' \<and> i' < Suc k \<longrightarrow> p ! i' \<noteq> c)"
        by (intro exI[of _ k]) auto
    qed
    with True show ?thesis unfolding table_upto_Suc by auto
  next
    case False
    have "(\<exists>i<Suc k. p ! i = c \<and> s = m - 1 - i \<and> (\<forall>i'. i < i' \<and> i' < Suc k \<longrightarrow> p ! i' \<noteq> c))
          \<longleftrightarrow> (\<exists>i<k. p ! i = c \<and> s = m - 1 - i \<and> (\<forall>i'. i < i' \<and> i' < k \<longrightarrow> p ! i' \<noteq> c))"
      using False by (auto simp: less_Suc_eq)
    with False Suc show ?thesis unfolding table_upto_Suc by auto
  qed
qed

lemma shiftTable_upto: "shiftTable p = table_upto p (length p) (length p - 1)"
  by (simp add: shiftTable_def table_upto_def)

lemma shiftTable_None:
  "shiftTable p c = None \<longleftrightarrow> (\<forall>i<length p - 1. p ! i \<noteq> c)"
  unfolding shiftTable_upto by (rule table_upto_None)

lemma shiftTable_Some:
  "shiftTable p c = Some s \<longleftrightarrow>
     (\<exists>i<length p - 1. p ! i = c \<and> s = length p - 1 - i \<and>
        (\<forall>i'. i < i' \<and> i' < length p - 1 \<longrightarrow> p ! i' \<noteq> c))"
  unfolding shiftTable_upto by (rule table_upto_Some)

lemma shiftTable_range: "shiftTable p c = Some s \<Longrightarrow> 1 \<le> s \<and> s \<le> length p - 1"
  by (auto simp: shiftTable_Some)

lemma horspool_shift_pos:
  "p \<noteq> [] \<Longrightarrow> 1 \<le> horspool_shift t p (shiftTable p) i \<and> horspool_shift t p (shiftTable p) i \<le> length p"
  using shiftTable_range[of p]
  by (fastforce simp: horspool_shift_def Suc_le_eq split: option.splits)

lemma horspool_scan_iff:
  "i + length p \<le> length t \<Longrightarrow> j < int (length p) \<Longrightarrow>
   horspool_scan t p i j < 0 \<longleftrightarrow> (\<forall>k::nat. int k \<le> j \<longrightarrow> t ! (i + k) = p ! k)"
proof (induction t p i j rule: horspool_scan.induct)
  case (1 t p i j)
  show ?case
  proof (cases "j \<ge> 0")
    case False
    then show ?thesis by (subst horspool_scan.simps) auto
  next
    case True
    then have nj: "nat j < length p" "i + nat j < length t" using 1(2,3) by auto
    show ?thesis
    proof (cases "t ! (i + nat j) = p ! nat j")
      case False
      then have "horspool_scan t p i j = j"
        using nj by (subst horspool_scan.simps) (simp add: js_at_in_range)
      moreover have "\<not> (\<forall>k::nat. int k \<le> j \<longrightarrow> t ! (i + k) = p ! k)"
        using False True by (auto intro!: exI[of _ "nat j"])
      ultimately show ?thesis using True by simp
    next
      case eq: True
      then have c: "j \<ge> 0 \<and> js_at t (i + nat j) = js_at p (nat j)"
        using nj True by (simp add: js_at_in_range)
      then have "horspool_scan t p i j = horspool_scan t p i (j - 1)"
        by (subst horspool_scan.simps) simp
      also have "\<dots> < 0 \<longleftrightarrow> (\<forall>k::nat. int k \<le> j - 1 \<longrightarrow> t ! (i + k) = p ! k)"
        using 1(1)[OF c 1(2)] 1(3) by simp
      also have "\<dots> \<longleftrightarrow> (\<forall>k::nat. int k \<le> j \<longrightarrow> t ! (i + k) = p ! k)"
      proof (intro iffI allI impI)
        fix k :: nat
        assume a: "\<forall>k::nat. int k \<le> j - 1 \<longrightarrow> t ! (i + k) = p ! k" and k: "int k \<le> j"
        show "t ! (i + k) = p ! k"
        proof (cases "int k = j")
          case True
          then have "k = nat j" by simp
          with eq show ?thesis by simp
        next
          case False
          with k have "int k \<le> j - 1" by simp
          with a show ?thesis by blast
        qed
      next
        fix k :: nat
        assume a: "\<forall>k::nat. int k \<le> j \<longrightarrow> t ! (i + k) = p ! k" and k: "int k \<le> j - 1"
        then show "t ! (i + k) = p ! k" by simp
      qed
      finally show ?thesis .
    qed
  qed
qed

lemma horspool_scan_occurs:
  assumes "i + length p \<le> length t"
  shows "horspool_scan t p i (int (length p) - 1) < 0 \<longleftrightarrow> occurs_at t p i"
proof -
  have "horspool_scan t p i (int (length p) - 1) < 0 \<longleftrightarrow>
        (\<forall>k::nat. int k \<le> int (length p) - 1 \<longrightarrow> t ! (i + k) = p ! k)"
    by (rule horspool_scan_iff[OF assms]) simp
  also have "\<dots> \<longleftrightarrow> (\<forall>k<length p. t ! (i + k) = p ! k)"
    by (auto simp: zle_diff1_eq)
  finally show ?thesis using assms by (simp add: occurs_at_def)
qed

lemma filter_upt_extend:
  assumes "a \<le> b" and "\<And>x. a \<le> x \<Longrightarrow> x < b \<Longrightarrow> \<not> P x"
  shows "filter P [0..<b] = filter P [0..<a]"
proof -
  from assms(1) have "[0..<b] = [0..<a] @ [a..<b]"
    by (metis le_add_diff_inverse upt_add_eq_append zero_le)
  moreover have "filter P [a..<b] = []"
    using assms(2) by (auto simp: filter_empty_conv)
  ultimately show ?thesis by simp
qed

lemma filter_occurs_beyond:
  assumes "Suc (length t) - length p \<le> b"
  shows "filter (occurs_at t p) [0..<b] = occurrences t p"
  unfolding occurrences_def
  by (rule filter_upt_extend[OF assms]) (auto simp: occurs_at_def)

lemma horspool_skip:
  assumes ne: "p \<noteq> []" and fit: "i + length p \<le> length t"
    and lo: "i < i'" and hi: "i' < i + horspool_shift t p (shiftTable p) i"
  shows "\<not> occurs_at t p i'"
proof
  assume occ: "occurs_at t p i'"
  define m where "m = length p"
  define d where "d = i' - i"
  define c where "c = t ! (i + m - 1)"
  have m: "m \<ge> 1" using ne by (simp add: m_def Suc_le_eq)
  have d: "1 \<le> d" "i' = i + d" using lo by (auto simp: d_def)
  have shift_le: "horspool_shift t p (shiftTable p) i \<le> m"
    using horspool_shift_pos[OF ne] by (simp add: m_def)
  with hi d have dm: "d < m" by simp
  have inr: "i + m - 1 < length t" using fit m by (simp add: m_def)
  have "\<forall>j<m. t ! (i' + j) = p ! j" using occ by (simp add: occurs_at_def m_def)
  moreover have "m - 1 - d < m" using dm by simp
  ultimately have "t ! (i' + (m - 1 - d)) = p ! (m - 1 - d)" by blast
  moreover have "i' + (m - 1 - d) = i + m - 1" using d dm by simp
  ultimately have pc: "p ! (m - 1 - d) = c" by (simp add: c_def)
  have pos: "m - 1 - d < m - 1" using d dm by simp
  show False
  proof (cases "shiftTable p c")
    case None
    then show False using pc pos by (auto simp: shiftTable_None m_def)
  next
    case (Some s)
    then obtain k where k: "k < m - 1" "s = m - 1 - k" "\<forall>k'. k < k' \<and> k' < m - 1 \<longrightarrow> p ! k' \<noteq> c"
      by (auto simp: shiftTable_Some m_def)
    from k(3) pc pos have "\<not> k < m - 1 - d" by blast
    then have "s \<le> d" using k(1,2) by simp
    moreover have "horspool_shift t p (shiftTable p) i = s"
      using Some inr by (simp add: horspool_shift_def js_at_in_range c_def m_def)
    ultimately show False using hi d by simp
  qed
qed

lemma horspool_step_inv:
  assumes ne: "p \<noteq> []" and fit: "int i \<le> int (length t) - int (length p)"
    and inv: "horspool_inv t p (i, ms)"
  shows "horspool_inv t p (horspool_step t p (shiftTable p) (i, ms))"
proof -
  from fit have le: "i + length p \<le> length t" by linarith
  show ?thesis
  proof (cases "occurs_at t p i")
    case True
    then show ?thesis
      using inv by (simp add: horspool_step_def horspool_inv_def horspool_scan_occurs[OF le])
  next
    case False
    define s where "s = horspool_shift t p (shiftTable p) i"
    have "filter (occurs_at t p) [0..<i + s] = filter (occurs_at t p) [0..<i]"
    proof (rule filter_upt_extend)
      fix x assume x: "i \<le> x" "x < i + s"
      show "\<not> occurs_at t p x"
      proof (cases "x = i")
        case True
        with False show ?thesis by simp
      next
        case False
        with x have "i < x" by simp
        then show ?thesis using horspool_skip[OF ne le _ x(2)[unfolded s_def]] by simp
      qed
    qed simp
    then show ?thesis
      using inv False
      by (simp add: horspool_step_def horspool_inv_def horspool_scan_occurs[OF le] s_def)
  qed
qed

lemma horspool_step_advances:
  assumes "p \<noteq> []"
  shows "fst (horspool_step t p (shiftTable p) (i, ms)) \<ge> i + 1"
  using horspool_shift_pos[OF assms, where t = t and i = i] by (simp add: horspool_step_def)

lemma horspool_loop_terminates:
  assumes "p \<noteq> []"
  shows "\<exists>r. horspool_loop t p (shiftTable p) st = Some r"
  unfolding horspool_loop_def
proof (rule measure_while_option_Some[where P = "\<lambda>_. True" and f = "\<lambda>(i, ms). Suc (length t) - i"])
  fix s :: "nat \<times> nat list"
  assume c: "case s of (i, matches) \<Rightarrow> int i \<le> int (length t) - int (length p)"
  obtain i ms where s: "s = (i, ms)" by (cases s)
  from c s have "i \<le> length t" by simp
  moreover obtain i' ms' where s': "horspool_step t p (shiftTable p) (i, ms) = (i', ms')"
    by (cases "horspool_step t p (shiftTable p) (i, ms)")
  moreover have "i' \<ge> i + 1" using horspool_step_advances[OF assms, where t = t and i = i and ms = ms] s' by simp
  ultimately show "True \<and> (case horspool_step t p (shiftTable p) s of (i, ms) \<Rightarrow> Suc (length t) - i)
        < (case s of (i, ms) \<Rightarrow> Suc (length t) - i)"
    using s by simp
qed simp

lemma horspool_loop_result:
  assumes ne: "p \<noteq> []" and res: "horspool_loop t p (shiftTable p) (0, []) = Some (i, ms)"
  shows "ms = occurrences t p"
proof -
  have "horspool_inv t p (i, ms)"
  proof (rule while_option_rule[OF _ res[unfolded horspool_loop_def]])
    show "horspool_inv t p (0, [])" by (simp add: horspool_inv_def)
  next
    fix s :: "nat \<times> nat list"
    assume "horspool_inv t p s" "case s of (i, matches) \<Rightarrow> int i \<le> int (length t) - int (length p)"
    then show "horspool_inv t p (horspool_step t p (shiftTable p) s)"
      using horspool_step_inv[OF ne] by (cases s) auto
  qed
  moreover have "\<not> int i \<le> int (length t) - int (length p)"
    using while_option_stop[OF res[unfolded horspool_loop_def]] by simp
  then have "Suc (length t) - length p \<le> i" by linarith
  ultimately show ?thesis
    by (simp add: horspool_inv_def filter_occurs_beyond)
qed

lemma horspool_nonempty:
  assumes "p \<noteq> []"
  shows "horspoolStringMatching t p = Some (occurrences t p)"
proof (cases "t = [] \<or> length p > length t")
  case True
  then have "length t < length p" using assms by (cases t) auto
  then show ?thesis using True by (auto simp: horspoolStringMatching_def occurrences_short)
next
  case False
  obtain r where r: "horspool_loop t p (shiftTable p) (0, []) = Some r"
    using horspool_loop_terminates[OF assms] by blast
  obtain i ms where "r = (i, ms)" by (cases r)
  with r horspool_loop_result[OF assms] have "horspool_loop t p (shiftTable p) (0, []) = Some (i, occurrences t p)"
    by simp
  then show ?thesis using False assms by (simp add: horspoolStringMatching_def)
qed

subsection \<open>The rolling hash and the Rabin-Karp loop\<close>

lemma js_rem_nonneg: "0 \<le> a \<Longrightarrow> 0 < b \<Longrightarrow> js_rem a b = a mod b"
  by (cases "a = 0") (simp_all add: js_rem_def)

lemma js_rem_repair:
  assumes "0 < b"
  shows "(let r = js_rem a b in if r < 0 then r + b else r) = a mod b"
proof (cases "0 \<le> a")
  case True
  moreover have "\<not> a mod b < 0" using assms by (simp add: not_less)
  ultimately show ?thesis using assms by (simp add: js_rem_nonneg Let_def)
next
  case False
  then have neg: "a < 0" by simp
  then have r: "js_rem a b = - ((- a) mod b)" using assms by (simp add: js_rem_def)
  show ?thesis
  proof (cases "(- a) mod b = 0")
    case True
    then have "a mod b = 0" by (metis mod_minus_eq minus_minus mod_0 neg_equal_0_iff_equal)
    with True r show ?thesis by (simp add: Let_def)
  next
    case False
    have pos: "0 < (- a) mod b" using False assms
      by (metis less_le pos_mod_sign)
    have "a mod b = b - ((- a) mod b)"
      using False zmod_zminus1_eq_if[of "- a" b] by simp
    with pos r show ?thesis by (simp add: Let_def)
  qed
qed

lemma prime_pos: "0 < prime" by (simp add: prime_def)

lemma horner_snoc: "horner (w @ [c]) = base * horner w + int (unat c)"
  by (simp add: horner_def)

lemma foldl_horner_acc:
  "foldl (\<lambda>acc c. base * acc + int (unat c)) a w = a * base ^ length w + horner w"
proof (induction w rule: rev_induct)
  case Nil
  show ?case by (simp add: horner_def)
next
  case (snoc c w)
  then show ?case by (simp add: horner_snoc algebra_simps)
qed

lemma horner_Cons: "horner (c # w) = int (unat c) * base ^ length w + horner w"
  using foldl_horner_acc[of "int (unat c)" w] by (simp add: horner_def)

lemma rk_h_fold: "fold (\<lambda>i h. js_rem (h * base) prime) [0..<k] 1 = base ^ k mod prime"
proof (induction k)
  case 0
  show ?case by (simp add: prime_def)
next
  case (Suc k)
  have "0 \<le> base ^ k mod prime * base" by (simp add: base_def prime_def)
  then have "js_rem (base ^ k mod prime * base) prime = (base ^ k mod prime * base) mod prime"
    by (rule js_rem_nonneg) (rule prime_pos)
  also have "\<dots> = base ^ Suc k mod prime" by (simp add: mod_simps mult.commute)
  finally show ?case using Suc by simp
qed

lemma rk_h_eq: "rk_h m = base ^ (m - 1) mod prime"
  by (simp add: rk_h_def rk_h_fold)

lemma rk_init_fold:
  "k \<le> length s \<Longrightarrow>
   fold (\<lambda>i hash. js_rem (base * hash + charCodeAt s i) prime) [0..<k] 0 = horner (take k s) mod prime"
proof (induction k)
  case 0
  show ?case by (simp add: horner_def)
next
  case (Suc k)
  then have k: "k < length s" by simp
  have nn: "0 \<le> base * (horner (take k s) mod prime) + charCodeAt s k"
    by (simp add: base_def prime_def charCodeAt_def)
  have "fold (\<lambda>i hash. js_rem (base * hash + charCodeAt s i) prime) [0..<Suc k] 0
        = js_rem (base * (horner (take k s) mod prime) + charCodeAt s k) prime"
    using Suc by simp
  also have "\<dots> = (base * (horner (take k s) mod prime) + charCodeAt s k) mod prime"
    by (rule js_rem_nonneg[OF nn prime_pos])
  also have "\<dots> = (base * horner (take k s) + charCodeAt s k) mod prime"
    by (metis mod_add_left_eq mod_mult_right_eq)
  also have "\<dots> = horner (take (Suc k) s) mod prime"
    using k by (simp add: take_Suc_conv_app_nth horner_snoc charCodeAt_def)
  finally show ?case .
qed

lemma rk_init_eq: "m \<le> length s \<Longrightarrow> rk_init s m = horner (take m s) mod prime"
  by (simp add: rk_init_def rk_init_fold)

lemma rk_init_window: "m \<le> length s \<Longrightarrow> rk_init s m = horner (window s m 0) mod prime"
  by (simp add: rk_init_eq window_def)

lemma window_Cons:
  assumes "i + m \<le> length t" "1 \<le> m"
  shows "window t m i = t ! i # take (m - 1) (drop (Suc i) t)"
proof -
  from assms have "i < length t" by simp
  then have "drop i t = t ! i # drop (Suc i) t" by (simp add: Cons_nth_drop_Suc)
  moreover obtain m' where "m = Suc m'" using assms(2) by (cases m) auto
  ultimately show ?thesis by (simp add: window_def)
qed

lemma window_snoc:
  assumes "Suc i + m \<le> length t" "1 \<le> m"
  shows "window t m (Suc i) = take (m - 1) (drop (Suc i) t) @ [t ! (i + m)]"
proof -
  obtain m' where m: "m = Suc m'" using assms(2) by (cases m) auto
  have "Suc i + m' < length t" using assms m by simp
  then have "take (Suc m') (drop (Suc i) t) = take m' (drop (Suc i) t) @ [drop (Suc i) t ! m']"
    by (simp add: take_Suc_conv_app_nth)
  moreover have "drop (Suc i) t ! m' = t ! (i + m)" using assms m by simp
  ultimately show ?thesis by (simp add: window_def m)
qed

lemma rk_roll_correct:
  assumes fit: "Suc i + m \<le> length t" and m: "1 \<le> m"
    and th: "textHash = horner (window t m i) mod prime"
  shows "rk_roll t m (rk_h m) i textHash = horner (window t m (Suc i)) mod prime"
proof -
  define w where "w = take (m - 1) (drop (Suc i) t)"
  define X where "X = charCodeAt t i"
  define C where "C = charCodeAt t (i + m)"
  define H where "H = horner (window t m i)"
  define B where "B = base ^ (m - 1)"
  have lw: "length w = m - 1" using fit by (simp add: w_def)
  have H: "H = X * B + horner w"
    using window_Cons[of i m t] fit m by (simp add: H_def horner_Cons w_def lw X_def B_def charCodeAt_def)
  have nxt: "horner (window t m (Suc i)) = base * horner w + C"
    using window_snoc[OF fit m] by (simp add: horner_snoc w_def C_def charCodeAt_def)
  have e1: "textHash = H - prime * (H div prime)"
    unfolding th H_def by (simp add: minus_mult_div_eq_mod)
  have e2: "rk_h m = B - prime * (B div prime)"
    unfolding rk_h_eq B_def by (simp add: minus_mult_div_eq_mod)
  have "base * (textHash - X * rk_h m) + C
        = (base * horner w + C) + prime * (base * (X * (B div prime) - H div prime))"
    unfolding e1 e2 H by (simp add: algebra_simps)
  then have "(base * (textHash - X * rk_h m) + C) mod prime = (base * horner w + C) mod prime"
    by (simp only: mod_mult_self2)
  then show ?thesis
    unfolding rk_roll_def X_def[symmetric] C_def[symmetric] nxt
    using js_rem_repair[OF prime_pos, of "base * (textHash - X * rk_h m) + C"] by simp
qed

lemma rk_loop_Suc:
  "rk_loop t p (Suc k) =
     rk_step t p (rk_h (length p)) (rk_init p (length p)) k (rk_loop t p k)"
  by (simp add: rk_loop_def Let_def)

lemma rk_loop_0: "rk_loop t p 0 = (rk_init t (length p), [])"
  by (simp add: rk_loop_def Let_def)

lemma occurs_at_window: "occurs_at t p i \<Longrightarrow> window t (length p) i = p"
  by (rule nth_equalityI) (auto simp: occurs_at_def window_def)

lemma rk_loop_hash:
  assumes "p \<noteq> []" and "k + length p \<le> length t"
  shows "fst (rk_loop t p k) = horner (window t (length p) k) mod prime"
  using assms(2)
proof (induction k)
  case 0
  then show ?case by (simp add: rk_loop_0 rk_init_window)
next
  case (Suc k)
  then have ih: "fst (rk_loop t p k) = horner (window t (length p) k) mod prime" by simp
  have m: "1 \<le> length p" using assms(1) by (simp add: Suc_le_eq)
  have lt: "int k < int (length t) - int (length p)" using Suc.prems by linarith
  obtain th ms where st: "rk_loop t p k = (th, ms)" by (cases "rk_loop t p k")
  have "fst (rk_loop t p (Suc k)) = rk_roll t (length p) (rk_h (length p)) k th"
    using lt by (simp add: rk_loop_Suc st rk_step_def Let_def)
  also have "\<dots> = horner (window t (length p) (Suc k)) mod prime"
    using rk_roll_correct[OF Suc.prems m] ih st by simp
  finally show ?case .
qed

lemma rk_loop_matches:
  assumes "p \<noteq> []" and "k \<le> Suc (length t) - length p" and "length p \<le> length t"
  shows "snd (rk_loop t p k) = filter (occurs_at t p) [0..<k]"
  using assms(2)
proof (induction k)
  case 0
  show ?case by (simp add: rk_loop_0)
next
  case (Suc k)
  then have ih: "snd (rk_loop t p k) = filter (occurs_at t p) [0..<k]" by simp
  have fit: "k + length p \<le> length t" using Suc.prems assms(3) by simp
  obtain th ms where st: "rk_loop t p k = (th, ms)" by (cases "rk_loop t p k")
  have th: "th = horner (window t (length p) k) mod prime"
    using rk_loop_hash[OF assms(1) fit] st by simp
  have ph: "rk_init p (length p) = horner p mod prime" by (simp add: rk_init_eq)
  have "rk_init p (length p) = th \<and> window_loop t p k 0 \<longleftrightarrow> occurs_at t p k"
    using occurs_at_window[of t p k] th ph by (auto simp: window_loop_occurs[OF fit])
  then have "snd (rk_loop t p (Suc k)) = (if occurs_at t p k then ms @ [k] else ms)"
    by (simp add: rk_loop_Suc st rk_step_def Let_def)
  then show ?case using ih st by simp
qed



lemma rabinKarp_passes:
  assumes "p \<noteq> []" and "length p \<le> length t"
  shows "rabinKarpStringMatching t p = snd (rk_loop t p (Suc (length t - length p)))"
proof -
  have "t \<noteq> []" using assms by auto
  moreover have "nat (int (length t) - int (length p) + 1) = Suc (length t - length p)"
    using assms(2) by linarith
  ultimately show ?thesis using assms by (simp add: rabinKarpStringMatching_def)
qed

lemma rabinKarp_nonempty:
  assumes "p \<noteq> []"
  shows "rabinKarpStringMatching t p = occurrences t p"
proof (cases "length p > length t")
  case True
  then show ?thesis by (simp add: rabinKarpStringMatching_def occurrences_short)
next
  case False
  then have le: "length p \<le> length t" by simp
  have e: "Suc (length t - length p) = Suc (length t) - length p" using le by simp
  have "rabinKarpStringMatching t p = snd (rk_loop t p (Suc (length t - length p)))"
    by (rule rabinKarp_passes[OF assms le])
  also have "\<dots> = occurrences t p"
    using rk_loop_matches[OF assms _ le, of "Suc (length t - length p)"] e
    by (simp add: occurrences_def)
  finally show ?thesis .
qed

subsection \<open>The LPS table\<close>

lemma border_0: "border p k 0"
  by (simp add: border_def)

lemma border_extend:
  assumes "border p i len" and "p ! i = p ! len"
  shows "border p (Suc i) (Suc len)"
  unfolding border_def
proof (intro conjI allI impI)
  show "Suc len \<le> Suc i" using assms(1) by (simp add: border_def)
next
  fix x assume x: "x < Suc len"
  have le: "len \<le> i" using assms(1) by (simp add: border_def)
  show "p ! x = p ! (Suc i - Suc len + x)"
  proof (cases "x = len")
    case True
    then show ?thesis using assms(2) le by simp
  next
    case False
    with x have "x < len" by simp
    then show ?thesis using assms(1) by (simp add: border_def)
  qed
qed

lemma border_shrink:
  assumes "border p (Suc k) (Suc b)"
  shows "border p k b"
  using assms unfolding border_def
  by (metis Suc_le_mono Suc_lessD Suc_mono diff_Suc_Suc)

lemma border_last:
  assumes "border p (Suc k) (Suc b)"
  shows "p ! b = p ! k"
proof -
  have "b \<le> k" and "p ! b = p ! (Suc k - Suc b + b)"
    using assms by (auto simp: border_def)
  then show ?thesis by simp
qed

lemma border_trans:
  assumes "border p i len" and "border p len b"
  shows "border p i b"
  unfolding border_def
proof (intro conjI allI impI)
  show "b \<le> i" using assms by (simp add: border_def)
next
  fix x assume x: "x < b"
  have le: "b \<le> len" "len \<le> i" using assms by (auto simp: border_def)
  have "p ! x = p ! (len - b + x)" using assms(2) x by (simp add: border_def)
  also have "len - b + x < len" using x le by simp
  then have "p ! (len - b + x) = p ! (i - len + (len - b + x))"
    using assms(1) by (simp add: border_def)
  also have "i - len + (len - b + x) = i - b + x" using le by simp
  finally show "p ! x = p ! (i - b + x)" .
qed

lemma border_inner:
  assumes "border p i len" and "border p i b" and "b \<le> len"
  shows "border p len b"
  unfolding border_def
proof (intro conjI allI impI)
  show "b \<le> len" by fact
next
  fix x assume x: "x < b"
  have le: "len \<le> i" using assms(1) by (simp add: border_def)
  have "len - b + x < len" using x assms(3) by simp
  then have "p ! (len - b + x) = p ! (i - len + (len - b + x))"
    using assms(1) by (simp add: border_def)
  also have "i - len + (len - b + x) = i - b + x" using le assms(3) by simp
  also have "p ! (i - b + x) = p ! x" using assms(2) x by (simp add: border_def)
  finally show "p ! x = p ! (len - b + x)" by simp
qed

lemma lps_inv_init: "p \<noteq> [] \<Longrightarrow> lps_inv p (1, 0, replicate (length p) 0)"
  by (auto simp: lps_inv_def lpb_def border_0 Suc_le_eq)

lemma lps_step_inv:
  assumes inv: "lps_inv p (i, len, lps)" and run: "i < length p"
  shows "lps_inv p (lps_step p (i, len, lps))"
proof -
  from inv have i1: "1 \<le> i" and li: "len < i" and ll: "length lps = length p"
    and tab: "\<forall>k<i. lpb p (Suc k) (lps ! k)" and bo: "border p i len"
    and mx: "\<forall>b. b \<le> i \<and> border p (Suc i) b \<longrightarrow> b \<le> Suc len"
    by (auto simp: lps_inv_def)
  have cmp: "js_at p i = js_at p len \<longleftrightarrow> p ! i = p ! len"
    using run li by (simp add: js_at_in_range)
  show ?thesis
  proof (cases "p ! i = p ! len")
    case True
    have st: "lps_step p (i, len, lps) = (Suc i, Suc len, lps[i := Suc len])"
      using True cmp by (simp add: lps_step_def)
    have b1: "border p (Suc i) (Suc len)" by (rule border_extend[OF bo True])
    have top: "lpb p (Suc i) (Suc len)"
      using b1 li mx by (auto simp: lpb_def)
    have tab': "\<forall>k<Suc i. lpb p (Suc k) (lps[i := Suc len] ! k)"
      using tab top run ll by (auto simp: less_Suc_eq)
    have mx': "\<forall>b. b \<le> Suc i \<and> border p (Suc (Suc i)) b \<longrightarrow> b \<le> Suc (Suc len)"
    proof (intro allI impI)
      fix b assume b: "b \<le> Suc i \<and> border p (Suc (Suc i)) b"
      show "b \<le> Suc (Suc len)"
      proof (cases b)
        case 0
        then show ?thesis by simp
      next
        case (Suc b0)
        with b have "border p (Suc i) b0" "b0 < Suc i" by (auto intro: border_shrink)
        with top have "b0 \<le> Suc len" by (auto simp: lpb_def)
        with Suc show ?thesis by simp
      qed
    qed
    show ?thesis
      unfolding st lps_inv_def using run li ll tab' b1 mx' by simp
  next
    case False
    note ne = this
    show ?thesis
    proof (cases "len = 0")
      case False
      define b where "b = lps ! (len - 1)"
      have st: "lps_step p (i, len, lps) = (i, b, lps)"
        using ne cmp False by (simp add: lps_step_def b_def)
      have "len - 1 < i" using li by simp
      with tab have "lpb p (Suc (len - 1)) b" unfolding b_def by blast
      then have lb: "lpb p len b" using False by simp
      then have bl: "b < len" and bb: "border p len b"
        and bm: "\<forall>b'. b' < len \<and> border p len b' \<longrightarrow> b' \<le> b"
        by (auto simp: lpb_def)
      have b2: "border p i b" by (rule border_trans[OF bo bb])
      have mx': "\<forall>c. c \<le> i \<and> border p (Suc i) c \<longrightarrow> c \<le> Suc b"
      proof (intro allI impI)
        fix c assume c: "c \<le> i \<and> border p (Suc i) c"
        show "c \<le> Suc b"
        proof (cases c)
          case 0
          then show ?thesis by simp
        next
          case (Suc c0)
          with c have c0: "border p i c0" and last: "p ! c0 = p ! i"
            by (auto intro: border_shrink border_last)
          from c mx Suc have "c0 \<le> len" by auto
          moreover have "c0 \<noteq> len" using last ne by auto
          ultimately have lt: "c0 < len" by simp
          then have "border p len c0" using border_inner[OF bo c0] by simp
          with bm lt have "c0 \<le> b" by blast
          with Suc show ?thesis by simp
        qed
      qed
      show ?thesis
        unfolding st lps_inv_def using i1 run li ll tab b2 mx' bl by simp
    next
      case True
      have st: "lps_step p (i, len, lps) = (Suc i, 0, lps[i := 0])"
        using ne cmp True by (simp add: lps_step_def)
      have top: "lpb p (Suc i) 0"
        unfolding lpb_def
      proof (intro conjI allI impI)
        fix b' assume b': "b' < Suc i \<and> border p (Suc i) b'"
        show "b' \<le> 0"
        proof (cases b')
          case 0
          then show ?thesis by simp
        next
          case (Suc c0)
          with b' have "Suc c0 \<le> i \<and> border p (Suc i) (Suc c0)" by simp
          with mx True have "Suc c0 \<le> Suc 0" by blast
          then have "c0 = 0" by simp
          with Suc b' have "p ! 0 = p ! i" using border_last[of p i 0] by simp
          with ne True show ?thesis by simp
        qed
      qed (simp_all add: border_0)
      have tab': "\<forall>k<Suc i. lpb p (Suc k) (lps[i := 0] ! k)"
        using tab top run ll by (auto simp: less_Suc_eq)
      have mx': "\<forall>b. b \<le> Suc i \<and> border p (Suc (Suc i)) b \<longrightarrow> b \<le> Suc 0"
      proof (intro allI impI)
        fix b assume b: "b \<le> Suc i \<and> border p (Suc (Suc i)) b"
        show "b \<le> Suc 0"
        proof (cases b)
          case 0
          then show ?thesis by simp
        next
          case (Suc b0)
          with b have "border p (Suc i) b0" "b0 < Suc i" by (auto intro: border_shrink)
          with top have "b0 \<le> 0" by (auto simp: lpb_def)
          with Suc show ?thesis by simp
        qed
      qed
      show ?thesis
        unfolding st lps_inv_def using run ll tab' mx' by (simp add: border_0)
    qed
  qed
qed

lemma lps_step_measure:
  assumes inv: "lps_inv p (i, len, lps)" and run: "i < length p"
  shows "(case lps_step p (i, len, lps) of (i', len', lps') \<Rightarrow> 2 * (length p - i') + len')
         < 2 * (length p - i) + len"
proof -
  from inv have li: "len < i" and tab: "\<forall>k<i. lpb p (Suc k) (lps ! k)"
    by (auto simp: lps_inv_def)
  show ?thesis
  proof (cases "js_at p i \<noteq> js_at p len \<and> len \<noteq> 0")
    case True
    then have "len - 1 < i" using li by simp
    with tab have "lpb p (Suc (len - 1)) (lps ! (len - 1))" by blast
    then have "lps ! (len - 1) < len" using True by (simp add: lpb_def)
    then show ?thesis using True by (simp add: lps_step_def)
  next
    case False
    then show ?thesis using run by (auto simp: lps_step_def)
  qed
qed

lemma computeLPS_table:
  assumes "p \<noteq> []"
  shows "\<exists>lps. computeLPS p = Some lps \<and> lps_table p lps"
proof -
  let ?b = "\<lambda>(i, len, lps). i < length p" 
  let ?s0 = "(1::nat, 0::nat, replicate (length p) (0::nat))"
  have "\<exists>r. while_option ?b (lps_step p) ?s0 = Some r"
  proof (rule measure_while_option_Some[where P = "lps_inv p"
        and f = "\<lambda>(i, len, lps). 2 * (length p - i) + len"])
    fix s :: "nat \<times> nat \<times> nat list"
    assume "lps_inv p s" "?b s"
    then show "lps_inv p (lps_step p s) \<and>
        (case lps_step p s of (i, len, lps) \<Rightarrow> 2 * (length p - i) + len)
        < (case s of (i, len, lps) \<Rightarrow> 2 * (length p - i) + len)"
      using lps_step_inv[of p] lps_step_measure[of p] by (cases s) auto
  qed (rule lps_inv_init[OF assms])
  then obtain r where r: "while_option ?b (lps_step p) ?s0 = Some r" by blast
  have "lps_inv p r"
  proof (rule while_option_rule[OF _ r])
    show "lps_inv p ?s0" by (rule lps_inv_init[OF assms])
  next
    fix s :: "nat \<times> nat \<times> nat list"
    assume "lps_inv p s" "?b s"
    then show "lps_inv p (lps_step p s)" using lps_step_inv[of p] by (cases s) auto
  qed
  moreover have "\<not> ?b r" by (rule while_option_stop[OF r])
  moreover obtain i len lps where "r = (i, len, lps)" by (cases r)
  ultimately have "computeLPS p = Some lps \<and> lps_table p lps"
    using r by (auto simp: computeLPS_def lps_inv_def lps_table_def)
  then show ?thesis by blast
qed

subsection \<open>The KMP search loop\<close>

lemma pmD: "pm t p i j \<Longrightarrow> x < j \<Longrightarrow> t ! (i - j + x) = p ! x"
  unfolding pm_def by blast

lemma borderD: "border p k b \<Longrightarrow> x < b \<Longrightarrow> p ! x = p ! (k - b + x)"
  unfolding border_def by blast

lemma pm_0: "pm t p i 0"
  by (simp add: pm_def)

lemma pm_extend:
  assumes "pm t p i j" and "t ! i = p ! j"
  shows "pm t p (Suc i) (Suc j)"
  unfolding pm_def
proof (intro conjI allI impI)
  show "Suc j \<le> Suc i" using assms(1) by (simp add: pm_def)
next
  fix x assume x: "x < Suc j"
  have le: "j \<le> i" using assms(1) by (simp add: pm_def)
  show "t ! (Suc i - Suc j + x) = p ! x"
  proof (cases "x = j")
    case True
    then show ?thesis using assms(2) le by simp
  next
    case False
    with x have "x < j" by simp
    then have "t ! (i - j + x) = p ! x" by (rule pmD[OF assms(1)])
    then show ?thesis by simp
  qed
qed

lemma pm_fallback:
  assumes "pm t p i j" and "border p j b"
  shows "pm t p i b"
  unfolding pm_def
proof (intro conjI allI impI)
  show "b \<le> i" using assms by (simp add: pm_def border_def)
next
  fix x assume x: "x < b"
  have le: "b \<le> j" "j \<le> i" using assms by (auto simp: pm_def border_def)
  have "j - b + x < j" using x le by simp
  then have "t ! (i - j + (j - b + x)) = p ! (j - b + x)"
    by (rule pmD[OF assms(1)])
  moreover have "i - j + (j - b + x) = i - b + x" using le by simp
  moreover have "p ! x = p ! (j - b + x)" by (rule borderD[OF assms(2) x])
  ultimately show "t ! (i - b + x) = p ! x" by simp
qed

lemma occurrence_gives_border:
  assumes pm: "pm t p i j" and jm: "j \<le> length p" and occ: "occurs_at t p s"
    and lo: "i - j < s" and hi: "s \<le> i"
  shows "border p j (i - s)"
  unfolding border_def
proof (intro conjI allI impI)
  have ji: "j \<le> i" using pm by (simp add: pm_def)
  show "i - s \<le> j" using lo hi ji by simp
  fix x assume x: "x < i - s"
  have lj: "i - s < j" using lo hi ji by simp
  have "x < length p" using x lj jm by simp
  then have a: "t ! (s + x) = p ! x" using occ unfolding occurs_at_def by blast
  have "j - (i - s) + x < j" using x lj by simp
  then have b: "t ! (i - j + (j - (i - s) + x)) = p ! (j - (i - s) + x)"
    by (rule pmD[OF pm])
  have e: "i - j + (j - (i - s) + x) = s + x" using lo hi ji by simp
  show "p ! x = p ! (j - (i - s) + x)" by (metis a b e)
qed

lemma no_occurrence_between:
  assumes pm: "pm t p i j" and jm: "j \<le> length p" and lb: "lpb p j b"
    and lo: "i - j < s" and hi: "s < i - b"
  shows "\<not> occurs_at t p s"
proof
  assume occ: "occurs_at t p s"
  have ji: "j \<le> i" using pm by (simp add: pm_def)
  have "border p j (i - s)"
    using occurrence_gives_border[OF pm jm occ lo] hi by simp
  moreover have "i - s < j" using lo hi ji by simp
  ultimately have "i - s \<le> b" using lb by (auto simp: lpb_def)
  with hi show False by simp
qed

lemma filter_fall:
  assumes pm: "pm t p i j" and jm: "j \<le> length p" and lb: "lpb p j b"
  shows "filter (occurs_at t p) [0..<i - b] = filter (occurs_at t p) [0..<Suc (i - j)]"
proof (rule filter_upt_extend)
  have "b < j" "j \<le> i" using lb pm by (auto simp: lpb_def pm_def)
  then show "Suc (i - j) \<le> i - b" by simp
next
  fix x assume "Suc (i - j) \<le> x" "x < i - b"
  then show "\<not> occurs_at t p x"
    using no_occurrence_between[OF pm jm lb, of x] by simp
qed

lemma pm_full_occurs:
  assumes "pm t p i (length p)" and "i \<le> length t"
  shows "occurs_at t p (i - length p)"
  using assms by (auto simp: pm_def occurs_at_def)

lemma mismatch_no_occurrence:
  assumes pm: "pm t p i j" and jm: "j < length p" and ne: "i < length t \<longrightarrow> t ! i \<noteq> p ! j"
  shows "\<not> occurs_at t p (i - j)"
proof
  assume occ: "occurs_at t p (i - j)"
  have ji: "j \<le> i" using pm by (simp add: pm_def)
  from occ jm have "i - j + length p \<le> length t" and "t ! (i - j + j) = p ! j"
    by (auto simp: occurs_at_def)
  with ji jm have "i < length t" "t ! i = p ! j" by auto
  with ne show False by simp
qed

lemma lps_table_lookup:
  assumes "lps_table p lps" and "1 \<le> j" and "j \<le> length p"
  shows "lpb p j (lps ! (j - 1))"
proof -
  have "j - 1 < length p" using assms(2,3) by simp
  then have "lpb p (Suc (j - 1)) (lps ! (j - 1))" using assms(1) by (simp add: lps_table_def)
  then show ?thesis using assms(2) by simp
qed

text \<open>What one pass of the search loop does, by cases.\<close>

lemma kmp_step_cases:
  assumes "i < length t" and "j < length p"
  shows "kmp_step t p lps (i, j, ms) =
    (if t ! i = p ! j then
       (if Suc j = length p then (Suc i, lps ! j, ms @ [i - j])
        else if Suc i < length t \<and> t ! Suc i \<noteq> p ! Suc j then (Suc i, lps ! j, ms)
        else (Suc i, Suc j, ms))
     else (if j \<noteq> 0 then (i, lps ! (j - 1), ms) else (Suc i, 0, ms)))"
proof (cases "t ! i = p ! j")
  case True
  then have c: "js_at t i = js_at p j" using assms by (simp add: js_at_in_range)
  show ?thesis
  proof (cases "Suc j = length p")
    case True
    then have "length p = Suc j" by simp
    with c \<open>t ! i = p ! j\<close> show ?thesis by (simp add: kmp_step_def)
  next
    case False
    then have sj: "Suc j < length p" using assms(2) by simp
    show ?thesis
    proof (cases "Suc i < length t")
      case True
      with sj have "js_at t (Suc i) \<noteq> js_at p (Suc j) \<longleftrightarrow> t ! Suc i \<noteq> p ! Suc j"
        by (simp add: js_at_in_range)
      with c \<open>t ! i = p ! j\<close> False True show ?thesis by (simp add: kmp_step_def)
    next
      case False
      with c \<open>t ! i = p ! j\<close> \<open>Suc j \<noteq> length p\<close> show ?thesis by (simp add: kmp_step_def)
    qed
  qed
next
  case False
  then have c: "js_at t i \<noteq> js_at p j" using assms by (simp add: js_at_in_range)
  with False assms show ?thesis by (auto simp: kmp_step_def)
qed

lemma kmp_step_inv:
  assumes tab: "lps_table p lps" and inv: "kmp_inv t p (i, j, ms)" and run: "i < length t"
  shows "kmp_inv t p (kmp_step t p lps (i, j, ms))"
proof -
  from inv have jm: "j < length p" and pmij: "pm t p i j"
    and ms: "ms = filter (occurs_at t p) [0..<i - j]"
    by (auto simp: kmp_inv_def)
  have ji: "j \<le> i" using pmij by (simp add: pm_def)
  note step = kmp_step_cases[OF run jm, of lps ms]
  show ?thesis
  proof (cases "t ! i = p ! j")
    case True
    have pm1: "pm t p (Suc i) (Suc j)" by (rule pm_extend[OF pmij True])
    have lb: "lpb p (Suc j) (lps ! j)"
      using lps_table_lookup[OF tab, of "Suc j"] jm by simp
    then have bj: "lps ! j < Suc j" and bb: "border p (Suc j) (lps ! j)" by (auto simp: lpb_def)
    have pm2: "pm t p (Suc i) (lps ! j)" by (rule pm_fallback[OF pm1 bb])
    have fall: "filter (occurs_at t p) [0..<Suc i - lps ! j] = filter (occurs_at t p) [0..<Suc (i - j)]"
      using filter_fall[OF pm1 _ lb] jm by simp
    show ?thesis
    proof (cases "Suc j = length p")
      case full: True
      have "occurs_at t p (Suc i - length p)"
        using pm_full_occurs[of t p "Suc i"] pm1 full run by simp
      then have "occurs_at t p (i - j)" using full[symmetric] by simp
      then have "filter (occurs_at t p) [0..<Suc (i - j)] = ms @ [i - j]" using ms by simp
      with fall pm2 bj full run True show ?thesis
        unfolding step kmp_inv_def by simp
    next
      case notfull: False
      then have sj: "Suc j < length p" using jm by simp
      show ?thesis
      proof (cases "Suc i < length t \<and> t ! Suc i \<noteq> p ! Suc j")
        case mis: True
        have "\<not> occurs_at t p (Suc i - Suc j)"
          by (rule mismatch_no_occurrence[OF pm1 sj]) (use mis in simp)
        then have "filter (occurs_at t p) [0..<Suc (i - j)] = ms" using ms by simp
        with fall pm2 bj sj mis True notfull show ?thesis
          unfolding step kmp_inv_def by simp
      next
        case False
        with pm1 sj ms run True notfull show ?thesis
          unfolding step kmp_inv_def by auto
      qed
    qed
  next
    case ne: False
    have noc: "\<not> occurs_at t p (i - j)"
      by (rule mismatch_no_occurrence[OF pmij jm]) (use ne in simp)
    show ?thesis
    proof (cases "j = 0")
      case True
      with noc have "filter (occurs_at t p) [0..<Suc i] = filter (occurs_at t p) [0..<i]" by simp
      with ms True ne run jm show ?thesis
        unfolding step kmp_inv_def by (simp add: pm_0)
    next
      case False
      have lb: "lpb p j (lps ! (j - 1))"
        using lps_table_lookup[OF tab, of j] False jm by simp
      then have bj: "lps ! (j - 1) < j" and bb: "border p j (lps ! (j - 1))" by (auto simp: lpb_def)
      have pm2: "pm t p i (lps ! (j - 1))" by (rule pm_fallback[OF pmij bb])
      have "filter (occurs_at t p) [0..<i - lps ! (j - 1)] = filter (occurs_at t p) [0..<Suc (i - j)]"
        using filter_fall[OF pmij _ lb] jm by simp
      also have "\<dots> = ms" using noc ms by simp
      finally show ?thesis
        using pm2 bj jm run ne False unfolding step kmp_inv_def by simp
    qed
  qed
qed

lemma kmp_step_measure:
  assumes tab: "lps_table p lps" and jm: "j < length p" and run: "i < length t"
  shows "(case kmp_step t p lps (i, j, ms) of (i', j', ms') \<Rightarrow> 2 * (length t - i') + j')
         < 2 * (length t - i) + j"
proof -
  have a: "lps ! j < Suc j"
    using lps_table_lookup[OF tab, of "Suc j"] jm by (simp add: lpb_def)
  have b: "j \<noteq> 0 \<Longrightarrow> lps ! (j - 1) < j"
    using lps_table_lookup[OF tab, of j] jm by (simp add: lpb_def)
  show ?thesis
    unfolding kmp_step_cases[OF run jm] using a b run by auto
qed

lemma kmp_loop_correct:
  assumes tab: "lps_table p lps" and ne: "p \<noteq> []"
  shows "\<exists>i j. kmp_loop t p lps (0, 0, []) = Some (i, j, occurrences t p)"
proof -
  let ?b = "\<lambda>(i, j, matches). i < length t"
  have init: "kmp_inv t p (0, 0, [])" using ne by (simp add: kmp_inv_def pm_0)
  have "\<exists>r. while_option ?b (kmp_step t p lps) (0, 0, []) = Some r"
  proof (rule measure_while_option_Some[where P = "kmp_inv t p"
        and f = "\<lambda>(i, j, ms). 2 * (length t - i) + j"])
    fix s :: "nat \<times> nat \<times> nat list"
    assume s: "kmp_inv t p s" "?b s"
    obtain i j ms where [simp]: "s = (i, j, ms)" by (cases s)
    from s have "j < length p" "i < length t" by (auto simp: kmp_inv_def)
    then show "kmp_inv t p (kmp_step t p lps s) \<and>
        (case kmp_step t p lps s of (i, j, ms) \<Rightarrow> 2 * (length t - i) + j)
        < (case s of (i, j, ms) \<Rightarrow> 2 * (length t - i) + j)"
      using kmp_step_inv[OF tab, where t = t and i = i and j = j and ms = ms] kmp_step_measure[OF tab, where t = t and i = i and j = j and ms = ms] s by simp
  qed (rule init)
  then obtain r where r: "while_option ?b (kmp_step t p lps) (0, 0, []) = Some r" by blast
  have "kmp_inv t p r"
  proof (rule while_option_rule[where P = "kmp_inv t p", OF _ r init])
    fix s :: "nat \<times> nat \<times> nat list"
    assume "kmp_inv t p s" "?b s"
    then show "kmp_inv t p (kmp_step t p lps s)" using kmp_step_inv[OF tab, where t = t] by (cases s) auto
  qed
  moreover have "\<not> ?b r" by (rule while_option_stop[OF r])
  moreover obtain i j ms where rr: "r = (i, j, ms)" by (cases r)
  ultimately have i: "i = length t" and j: "j < length p"
    and ms: "ms = filter (occurs_at t p) [0..<i - j]"
    by (auto simp: kmp_inv_def)
  have "Suc (length t) - length p \<le> i - j" using i j by simp
  then have "ms = occurrences t p" unfolding ms by (rule filter_occurs_beyond)
  with r rr show ?thesis by (auto simp: kmp_loop_def)
qed

lemma kmp_nonempty:
  assumes "p \<noteq> []"
  shows "kmpStringMatching t p = Some (occurrences t p)"
proof (cases "t = []")
  case True
  then have "length t < length p" using assms by simp
  then show ?thesis using True by (simp add: kmpStringMatching_def occurrences_short)
next
  case False
  obtain lps where lps: "computeLPS p = Some lps" "lps_table p lps"
    using computeLPS_table[OF assms] by blast
  obtain i j where "kmp_loop t p lps (0, 0, []) = Some (i, j, occurrences t p)"
    using kmp_loop_correct[OF lps(2) assms] by blast
  then show ?thesis using False assms lps(1) by (simp add: kmpStringMatching_def)
qed

subsection \<open>Facts used by several claims\<close>

lemma set_occurrences: "set (occurrences t p) = {i. occurs_at t p i}"
  by (auto simp: occurrences_def occurs_at_def)

lemma sorted_occurrences: "sorted_wrt (<) (occurrences t p)"
  unfolding occurrences_def by (rule sorted_wrt_filter) (rule sorted_wrt_upt)

lemma distinct_occurrences: "distinct (occurrences t p)"
  by (simp add: occurrences_def)

lemma naive_empty: "naiveStringMatching t [] = []"
  by (simp add: naiveStringMatching_def)

lemma border_take_drop:
  assumes "j \<le> k" and "k \<le> length p"
  shows "border p k j \<longleftrightarrow> take j (take k p) = drop (k - j) (take k p)"
proof
  assume b: "border p k j"
  show "take j (take k p) = drop (k - j) (take k p)"
  proof (rule nth_equalityI)
    show "length (take j (take k p)) = length (drop (k - j) (take k p))"
      using assms by simp
  next
    fix x assume "x < length (take j (take k p))"
    then have x: "x < j" by simp
    then have "p ! x = p ! (k - j + x)" by (rule borderD[OF b])
    then show "take j (take k p) ! x = drop (k - j) (take k p) ! x"
      using x assms by simp
  qed
next
  assume e: "take j (take k p) = drop (k - j) (take k p)"
  show "border p k j"
    unfolding border_def
  proof (intro conjI allI impI)
    show "j \<le> k" by fact
    fix x assume x: "x < j"
    have "take j (take k p) ! x = drop (k - j) (take k p) ! x" using e by simp
    then show "p ! x = p ! (k - j + x)" using x assms by simp
  qed
qed

lemma lpb_Max:
  assumes "lpb p k b" and "k \<le> length p"
  shows "b = Max {j. j < k \<and> take j (take k p) = drop (k - j) (take k p)}"
proof -
  let ?B = "{j. j < k \<and> take j (take k p) = drop (k - j) (take k p)}"
  have eq: "?B = {j. j < k \<and> border p k j}"
    using border_take_drop[OF _ assms(2)] by auto
  have "Max ?B = b"
  proof (rule Max_eqI)
    show "finite ?B" by simp
    show "b \<in> ?B" using assms(1) unfolding eq lpb_def by simp
    fix y assume "y \<in> ?B"
    then show "y \<le> b" using assms(1) unfolding eq lpb_def by simp
  qed
  then show ?thesis by simp
qed

lemma lpb_first: "lpb p (Suc 0) b \<Longrightarrow> b = 0"
  by (simp add: lpb_def)

lemma occurs_at_take_drop:
  "occurs_at t p i \<longleftrightarrow> i + length p \<le> length t \<and> take (length p) (drop i t) = p"
proof
  assume o: "occurs_at t p i"
  then have "take (length p) (drop i t) = p"
    by (intro nth_equalityI) (auto simp: occurs_at_def)
  with o show "i + length p \<le> length t \<and> take (length p) (drop i t) = p"
    by (simp add: occurs_at_def)
next
  assume a: "i + length p \<le> length t \<and> take (length p) (drop i t) = p"
  show "occurs_at t p i"
    unfolding occurs_at_def
  proof (intro conjI allI impI)
    show le: "i + length p \<le> length t" using a by simp
    fix j assume j: "j < length p"
    have "take (length p) (drop i t) ! j = t ! (i + j)" using j le by simp
    moreover have "take (length p) (drop i t) = p" using a by simp
    ultimately show "t ! (i + j) = p ! j" by metis
  qed
qed

lemma kmp_empty: "kmpStringMatching t [] = Some []"
  by (simp add: kmpStringMatching_def)

lemma rabinKarp_empty: "rabinKarpStringMatching t [] = []"
  by (simp add: rabinKarpStringMatching_def)

lemma horspool_empty: "horspoolStringMatching t [] = Some []"
  by (simp add: horspoolStringMatching_def)

text \<open>
  The four matchers of script.js return the empty sequence for an empty pattern and for
  a pattern longer than the text.
\<close>

lemma guarded_matchers_invalid_input:
  assumes "p = [] \<or> length t < length p"
  shows "naiveStringMatching t p = [] \<and> kmpStringMatching t p = Some [] \<and>
         rabinKarpStringMatching t p = [] \<and> horspoolStringMatching t p = Some []"
proof (cases "p = []")
  case True
  then show ?thesis by (simp add: naive_empty kmp_empty rabinKarp_empty horspool_empty)
next
  case False
  with assms have "length t < length p" by simp
  then have "occurrences t p = []" by (rule occurrences_short)
  then show ?thesis
    using False by (simp add: naive_nonempty kmp_nonempty rabinKarp_nonempty horspool_nonempty)
qed

text \<open>
  The pointer version of the naive matcher in the C++ program never steps back after a
  partial match: in \<open>aab\<close> the pattern \<open>ab\<close> occurs at offset 1 and is not found.
\<close>

lemma cpp_naive_misses_occurrence:
  "take 2 (drop 1 (bytes ''aab'')) = bytes ''ab'' \<and>
   cpp_naiveStringMatching (bytes ''aab'') (bytes ''ab'') = Some []"
  by (simp add: bytes_def cpp_naiveStringMatching_def cpp_naive_step_def upt_rec)

lemma prime_mod_range: "0 \<le> x mod prime \<and> x mod prime < prime"
  by (simp add: prime_def)

lemma horspoolHelper_split:
  assumes "p \<noteq> []"
  shows "horspoolHelper p =
     (if shiftTable p (last p) = None then (shiftTable p)(last p \<mapsto> length p) else shiftTable p)"
proof -
  define m where "m = length p"
  define f where "f = (\<lambda>i (values :: 8 word \<rightharpoonup> nat).
             if i = m - 1
             then (if values (p ! i) = None then values(p ! i \<mapsto> m) else values)
             else values(p ! i \<mapsto> m - i - 1))"
  define g where "g = (\<lambda>i (tbl :: 8 word \<rightharpoonup> nat). tbl(p ! i \<mapsto> m - 1 - i))"
  have m: "m = Suc (m - 1)" using assms by (simp add: m_def)
  have upt: "[0..<m] = [0..<m - 1] @ [m - 1]" by (subst m) simp
  have hh: "horspoolHelper p = fold f [0..<m] Map.empty"
    unfolding horspoolHelper_def f_def m_def by (rule refl)
  have "fold f [0..<m - 1] Map.empty = fold g [0..<m - 1] Map.empty"
    by (rule fold_cong) (auto simp: f_def g_def)
  then have "fold f [0..<m] Map.empty = f (m - 1) (shiftTable p)"
    unfolding upt by (simp add: shiftTable_def g_def m_def)
  moreover have "p ! (m - 1) = last p" using assms by (simp add: last_conv_nth m_def)
  then have "f (m - 1) (shiftTable p) =
     (if shiftTable p (last p) = None then (shiftTable p)(last p \<mapsto> m) else shiftTable p)"
    by (simp add: f_def)
  ultimately show ?thesis
    unfolding hh m_def by simp
qed

subsection \<open>The unguarded naive matcher\<close>

lemma naiveSearch_inner_iff:
  "i + length p \<le> length t \<Longrightarrow> j \<le> length p \<Longrightarrow>
   naiveSearch_inner t p i j = length p \<longleftrightarrow>
     (\<forall>k. j \<le> k \<and> k < length p \<longrightarrow> t ! (i + k) = p ! k)"
proof (induction t p i j rule: naiveSearch_inner.induct)
  case (1 t p i j)
  show ?case
  proof (cases "j < length p")
    case False
    with 1(3) have "j = length p" by simp
    then show ?thesis by (subst naiveSearch_inner.simps) auto
  next
    case True
    note lt = this
    show ?thesis
    proof (cases "t ! (i + j) = p ! j")
      case False
      with lt 1(2) have "naiveSearch_inner t p i j = j"
        by (subst naiveSearch_inner.simps) (simp add: js_at_in_range)
      moreover from False lt
      have "\<not> (\<forall>k. j \<le> k \<and> k < length p \<longrightarrow> t ! (i + k) = p ! k)" by auto
      ultimately show ?thesis using lt by simp
    next
      case True
      have b: "js_at t (i + j) = js_at p j"
        using True lt 1(2) by (simp add: js_at_in_range)
      then have a: "naiveSearch_inner t p i j = naiveSearch_inner t p i (j + 1)"
        using lt by (subst naiveSearch_inner.simps) simp
      have "naiveSearch_inner t p i (j + 1) = length p \<longleftrightarrow>
            (\<forall>k. j + 1 \<le> k \<and> k < length p \<longrightarrow> t ! (i + k) = p ! k)"
        using 1(1)[OF lt _ 1(2)] b lt by simp
      also have "\<dots> \<longleftrightarrow> (\<forall>k. j \<le> k \<and> k < length p \<longrightarrow> t ! (i + k) = p ! k)"
        using True by (metis Suc_eq_plus1 Suc_leI le_neq_implies_less Suc_leD)
      finally show ?thesis using a by simp
    qed
  qed
qed

lemma naiveSearch_inner_occurs:
  "i + length p \<le> length t \<Longrightarrow> naiveSearch_inner t p i 0 = length p \<longleftrightarrow> occurs_at t p i"
  by (simp add: naiveSearch_inner_iff occurs_at_def)

lemma naiveSearch_loop_filter:
  "naiveSearch_loop t p i matches =
     matches @ filter (occurs_at t p) [i..<Suc (length t) - length p]"
proof (induction t p i matches rule: naiveSearch_loop.induct)
  case (1 t p i matches)
  show ?case
  proof (cases "int i \<le> int (length t) - int (length p)")
    case False
    then have "[i..<Suc (length t) - length p] = []" by auto
    with False show ?thesis by (subst naiveSearch_loop.simps) simp
  next
    case True
    then have le: "i + length p \<le> length t" by linarith
    then have upt: "[i..<Suc (length t) - length p] = i # [i + 1..<Suc (length t) - length p]"
      by (simp add: upt_conv_Cons)
    have "naiveSearch_loop t p i matches =
          naiveSearch_loop t p (i + 1)
            (if naiveSearch_inner t p i 0 = length p then matches @ [i] else matches)"
      using True by (subst naiveSearch_loop.simps) simp
    also have "\<dots> = (if naiveSearch_inner t p i 0 = length p then matches @ [i] else matches) @
                 filter (occurs_at t p) [i + 1..<Suc (length t) - length p]"
      by (rule 1[OF True])
    also have "\<dots> = matches @ filter (occurs_at t p) [i..<Suc (length t) - length p]"
      unfolding upt by (simp add: naiveSearch_inner_occurs[OF le])
    finally show ?thesis .
  qed
qed

lemma naiveSearch_occurrences: "naiveSearch t p = occurrences t p"
  by (simp add: naiveSearch_def naiveSearch_loop_filter occurrences_def)

lemma occurrences_empty_pattern: "occurrences t [] = [0..<Suc (length t)]"
  by (simp add: occurrences_def occurs_at_def)

subsection \<open>The matcher of search.js\<close>

lemma kmp_search_lower:
  "kmpStringMatching_search f t p =
     (if p = [] \<or> t = [] then Some [] else kmpStringMatching (f t) (f p))"
proof (cases "p = [] \<or> t = []")
  case True
  then show ?thesis by (simp add: kmpStringMatching_search_def)
next
  case False
  note ne = this
  show ?thesis
  proof (cases "f p = []")
    case True
    with ne show ?thesis by (simp add: kmpStringMatching_search_def kmp_empty)
  next
    case fp: False
    show ?thesis
    proof (cases "length (f p) > length (f t)")
      case True
      then have "kmpStringMatching (f t) (f p) = Some []"
        using kmp_nonempty[OF fp] by (simp add: occurrences_short)
      with True ne show ?thesis by (simp add: kmpStringMatching_search_def Let_def)
    next
      case False
      with fp have "f t \<noteq> []" by auto
      with False fp ne show ?thesis
        by (simp add: kmpStringMatching_search_def kmpStringMatching_def Let_def)
    qed
  qed
qed

section \<open>The claims\<close>

text \<open>
  Claim C1. For every text and every pattern, KMP, Rabin-Karp and Horspool return the
  match offsets that the naive matcher returns, so the four sequences are pairwise
  identical. (The four functions of sentiment.js are the same code under the names
  \<open>naiveSearch\<close>, \<open>kmpSearch\<close>, \<open>hashingSearch\<close> and \<open>horspoolSearch\<close>.)
\<close>

theorem matchers_agree:
  "kmpStringMatching t p = Some (naiveStringMatching t p) \<and>
   rabinKarpStringMatching t p = naiveStringMatching t p \<and>
   horspoolStringMatching t p = Some (naiveStringMatching t p)"
proof (cases "p = []")
  case True
  then show ?thesis by (simp add: naive_empty kmp_empty rabinKarp_empty horspool_empty)
next
  case False
  then show ?thesis
    by (simp add: naive_nonempty kmp_nonempty rabinKarp_nonempty horspool_nonempty)
qed

text \<open>
  Claim C2, amended. For every text and every non-empty pattern, the naive matcher
  returns exactly the offsets \<open>i\<close> with \<open>i + len(pattern) \<le> len(text)\<close> at which
  the text equals the pattern character for character, in increasing order; for the
  empty pattern it returns the empty sequence.
\<close>

theorem naive_exact:
  "(p \<noteq> [] \<longrightarrow>
      set (naiveStringMatching t p) =
        {i. i + length p \<le> length t \<and> (\<forall>j<length p. t ! (i + j) = p ! j)} \<and>
      sorted_wrt (<) (naiveStringMatching t p)) \<and>
   naiveStringMatching t [] = []"
  using set_occurrences[of t p] sorted_occurrences[of t p]
  by (simp add: naive_nonempty naive_empty occurs_at_def)

text \<open>The statement of C2 at the text \<open>aaa\<close> and the pattern \<open>aa\<close>.\<close>

theorem naive_exact_witness:
  "js ''aa'' \<noteq> [] \<and>
   set (naiveStringMatching (js ''aaa'') (js ''aa'')) =
     {i. i + length (js ''aa'') \<le> length (js ''aaa'') \<and>
         (\<forall>j<length (js ''aa''). js ''aaa'' ! (i + j) = js ''aa'' ! j)} \<and>
   sorted_wrt (<) (naiveStringMatching (js ''aaa'') (js ''aa''))"
  using naive_exact[of "js ''aa''" "js ''aaa''"] by (simp add: js_def)

text \<open>
  C2 as first stated fails at the empty pattern: offset 0 of the text \<open>a\<close> is a place
  where the empty pattern occurs, and the naive matcher does not return it.
\<close>

theorem naive_empty_pattern_counterexample:
  "0 + length (js '''') \<le> length (js ''a'') \<and>
   take (length (js '''')) (drop 0 (js ''a'')) = js '''' \<and>
   0 \<notin> set (naiveStringMatching (js ''a'') (js ''''))"
  by (simp add: js_def naiveStringMatching_def)

text \<open>
  Claim C3, amended. The four matchers of the search page of script.js, applied to an
  empty pattern or to a pattern longer than the text, return the empty sequence.
  \<open>naiveSearch\<close> of the older sentiment page, which has no test of its arguments,
  returns the empty sequence for a pattern longer than the text and every offset from 0
  to the length of the text for the empty pattern.
\<close>

theorem invalid_input_results:
  "(p = [] \<or> length t < length p \<longrightarrow>
      naiveStringMatching t p = [] \<and> kmpStringMatching t p = Some [] \<and>
      rabinKarpStringMatching t p = [] \<and> horspoolStringMatching t p = Some []) \<and>
   (length t < length p \<longrightarrow> naiveSearch t p = []) \<and>
   naiveSearch t [] = [0..<Suc (length t)]"
proof (intro conjI impI)
  assume a: "p = [] \<or> length t < length p"
  show "naiveStringMatching t p = []" using guarded_matchers_invalid_input[OF a] by simp
  show "kmpStringMatching t p = Some []" using guarded_matchers_invalid_input[OF a] by simp
  show "rabinKarpStringMatching t p = []" using guarded_matchers_invalid_input[OF a] by simp
  show "horspoolStringMatching t p = Some []" using guarded_matchers_invalid_input[OF a] by simp
next
  assume "length t < length p"
  then show "naiveSearch t p = []" by (simp add: naiveSearch_occurrences occurrences_short)
next
  show "naiveSearch t [] = [0..<Suc (length t)]"
    by (simp add: naiveSearch_occurrences occurrences_empty_pattern)
qed

text \<open>The statement of C3 at the text \<open>ab\<close> and the longer pattern \<open>abc\<close>.\<close>

theorem invalid_input_results_witness:
  "length (js ''ab'') < length (js ''abc'') \<and>
   naiveStringMatching (js ''ab'') (js ''abc'') = [] \<and>
   kmpStringMatching (js ''ab'') (js ''abc'') = Some [] \<and>
   rabinKarpStringMatching (js ''ab'') (js ''abc'') = [] \<and>
   horspoolStringMatching (js ''ab'') (js ''abc'') = Some [] \<and>
   naiveSearch (js ''ab'') (js ''abc'') = []"
proof -
  have h: "length (js ''ab'') < length (js ''abc'')" by (simp add: js_def)
  from invalid_input_results[of "js ''abc''" "js ''ab''"] h show ?thesis by blast
qed

text \<open>
  C3 as first stated fails for \<open>naiveSearch\<close>: on the text \<open>ab\<close> and the empty
  pattern it returns a match at every offset.
\<close>

theorem naiveSearch_empty_pattern_counterexample:
  "naiveSearch (js ''ab'') (js '''') = [0, 1, 2]"
  by code_simp

text \<open>
  Claim C4. For every non-empty pattern \<open>computeLPS\<close> returns a table with one entry
  per position, where entry \<open>i\<close> is the greatest \<open>k \<le> i\<close> such that the first
  \<open>k\<close> characters of \<open>pattern[0..=i]\<close> are also its last \<open>k\<close> characters;
  entry 0 is 0 and entry \<open>i\<close> is at most \<open>i\<close>. For \<open>ababaca\<close> the table is
  \<open>[0,0,1,2,3,0,1]\<close>.
\<close>

theorem computeLPS_correct:
  "(p \<noteq> [] \<longrightarrow>
      (\<exists>lps. computeLPS p = Some lps \<and> length lps = length p \<and>
         (\<forall>i<length p. lps ! i =
            Max {k. k < Suc i \<and> take k (take (Suc i) p) = drop (Suc i - k) (take (Suc i) p)}) \<and>
         lps ! 0 = 0 \<and> (\<forall>i<length p. lps ! i \<le> i))) \<and>
   computeLPS (js ''ababaca'') = Some [0, 0, 1, 2, 3, 0, 1]"
proof (intro conjI impI)
  assume ne: "p \<noteq> []"
  obtain lps where lps: "computeLPS p = Some lps" "lps_table p lps"
    using computeLPS_table[OF ne] by blast
  have len: "length lps = length p" using lps(2) by (simp add: lps_table_def)
  have tab: "\<And>i. i < length p \<Longrightarrow> lpb p (Suc i) (lps ! i)"
    using lps(2) by (simp add: lps_table_def)
  have mx: "\<forall>i<length p. lps ! i =
       Max {k. k < Suc i \<and> take k (take (Suc i) p) = drop (Suc i - k) (take (Suc i) p)}"
  proof (intro allI impI)
    fix i assume i: "i < length p"
    show "lps ! i = Max {k. k < Suc i \<and> take k (take (Suc i) p) = drop (Suc i - k) (take (Suc i) p)}"
      by (rule lpb_Max[OF tab[OF i]]) (use i in simp)
  qed
  have z: "lps ! 0 = 0" using tab[of 0] ne by (simp add: lpb_first)
  have le: "\<forall>i<length p. lps ! i \<le> i" using tab by (auto simp: lpb_def less_Suc_eq_le)
  show "\<exists>lps. computeLPS p = Some lps \<and> length lps = length p \<and>
         (\<forall>i<length p. lps ! i =
            Max {k. k < Suc i \<and> take k (take (Suc i) p) = drop (Suc i - k) (take (Suc i) p)}) \<and>
         lps ! 0 = 0 \<and> (\<forall>i<length p. lps ! i \<le> i)"
    using lps(1) len mx z le by blast
next
  show "computeLPS (js ''ababaca'') = Some [0, 0, 1, 2, 3, 0, 1]" by code_simp
qed

text \<open>The statement of C4 at the pattern \<open>aab\<close>.\<close>

theorem computeLPS_correct_witness:
  "js ''aab'' \<noteq> [] \<and>
   (\<exists>lps. computeLPS (js ''aab'') = Some lps \<and> length lps = length (js ''aab'') \<and>
      lps ! 0 = 0 \<and> (\<forall>i<length (js ''aab''). lps ! i \<le> i))"
  using computeLPS_correct[of "js ''aab''"] by (auto simp: js_def)




text \<open>
  Claim C6, amended. For every non-empty pattern of length \<open>m\<close> the JavaScript table
  has, for a character \<open>c\<close>, the entry \<open>m - 1 - i\<close> of the rightmost position
  \<open>i \<le> m - 2\<close> that holds \<open>c\<close>, and no entry when \<open>c\<close> occurs at none of these
  positions; for \<open>abc\<close> it is \<open>{a:2, b:1}\<close>. The C++ \<open>horspoolHelper\<close> builds the
  same entries and, when the last character of the pattern occurs nowhere before,
  one more entry that sends it to \<open>m\<close>; for \<open>abc\<close> it is \<open>{a:2, b:1, c:3}\<close>.
\<close>

theorem shiftTable_exact:
  "(p \<noteq> [] \<longrightarrow>
      (shiftTable p c = Some s \<longleftrightarrow>
         (\<exists>i<length p - 1. p ! i = c \<and> s = length p - 1 - i \<and>
            (\<forall>i'. i < i' \<and> i' < length p - 1 \<longrightarrow> p ! i' \<noteq> c))) \<and>
      (shiftTable p c = None \<longleftrightarrow> (\<forall>i<length p - 1. p ! i \<noteq> c))) \<and>
   shiftTable (js ''abc'') = [0x61 \<mapsto> 2, 0x62 \<mapsto> 1] \<and>
   (q \<noteq> [] \<longrightarrow> horspoolHelper q =
      (if shiftTable q (last q) = None then (shiftTable q)(last q \<mapsto> length q)
       else shiftTable q)) \<and>
   horspoolHelper (bytes ''abc'') = [0x61 \<mapsto> 2, 0x62 \<mapsto> 1, 0x63 \<mapsto> 3]"
proof (intro conjI impI)
  show "shiftTable p c = Some s \<longleftrightarrow>
         (\<exists>i<length p - 1. p ! i = c \<and> s = length p - 1 - i \<and>
            (\<forall>i'. i < i' \<and> i' < length p - 1 \<longrightarrow> p ! i' \<noteq> c))"
    by (rule shiftTable_Some)
  show "shiftTable p c = None \<longleftrightarrow> (\<forall>i<length p - 1. p ! i \<noteq> c)"
    by (rule shiftTable_None)
  show "shiftTable (js ''abc'') = [0x61 \<mapsto> 2, 0x62 \<mapsto> 1]"
    by (simp add: shiftTable_def js_def upt_rec numeral_2_eq_2)
  show "horspoolHelper (bytes ''abc'') = [0x61 \<mapsto> 2, 0x62 \<mapsto> 1, 0x63 \<mapsto> 3]"
    by (simp add: horspoolHelper_def bytes_def upt_rec numeral_2_eq_2 numeral_3_eq_3)
next
  assume "q \<noteq> []"
  then show "horspoolHelper q =
      (if shiftTable q (last q) = None then (shiftTable q)(last q \<mapsto> length q)
       else shiftTable q)"
    by (rule horspoolHelper_split)
qed

text \<open>The statement of C6 at the pattern \<open>aba\<close>.\<close>

theorem shiftTable_exact_witness:
  "js ''aba'' \<noteq> [] \<and>
   (shiftTable (js ''aba'') 0x61 = Some 2 \<longleftrightarrow>
      (\<exists>i<length (js ''aba'') - 1. js ''aba'' ! i = 0x61 \<and> 2 = length (js ''aba'') - 1 - i \<and>
         (\<forall>i'. i < i' \<and> i' < length (js ''aba'') - 1 \<longrightarrow> js ''aba'' ! i' \<noteq> 0x61))) \<and>
   bytes ''aba'' \<noteq> [] \<and>
   horspoolHelper (bytes ''aba'') =
      (if shiftTable (bytes ''aba'') (last (bytes ''aba'')) = None
       then (shiftTable (bytes ''aba''))(last (bytes ''aba'') \<mapsto> length (bytes ''aba''))
       else shiftTable (bytes ''aba''))"
  using shiftTable_exact[of "js ''aba''" "0x61" 2 "bytes ''aba''"] by (simp add: js_def bytes_def)

text \<open>
  C6 as first stated leaves \<open>c\<close> out of the table of \<open>abc\<close>; the table of
  \<open>horspoolHelper\<close> has it.
\<close>

theorem horspoolHelper_last_counterexample:
  "horspoolHelper (bytes ''abc'') 0x63 = Some 3"
  by (simp add: horspoolHelper_def bytes_def upt_rec)

text \<open>
  Claim C7. Every matcher returns a strictly increasing sequence without duplicates;
  for a non-empty pattern it holds every offset where the pattern occurs, overlapping
  ones included, and nothing else; \<open>search("aaa", "aa")\<close> is \<open>[0, 1]\<close> for each of the
  four.
\<close>

theorem matches_strictly_increasing:
  "sorted_wrt (<) (naiveStringMatching t p) \<and> distinct (naiveStringMatching t p) \<and>
   (\<exists>r. kmpStringMatching t p = Some r \<and> sorted_wrt (<) r \<and> distinct r) \<and>
   sorted_wrt (<) (rabinKarpStringMatching t p) \<and> distinct (rabinKarpStringMatching t p) \<and>
   (\<exists>r. horspoolStringMatching t p = Some r \<and> sorted_wrt (<) r \<and> distinct r) \<and>
   (p \<noteq> [] \<longrightarrow>
      (\<forall>i. i \<in> set (naiveStringMatching t p) \<longleftrightarrow> occurs_at t p i) \<and>
      (\<forall>i. i \<in> set (rabinKarpStringMatching t p) \<longleftrightarrow> occurs_at t p i) \<and>
      (\<exists>r. kmpStringMatching t p = Some r \<and> (\<forall>i. i \<in> set r \<longleftrightarrow> occurs_at t p i)) \<and>
      (\<exists>r. horspoolStringMatching t p = Some r \<and> (\<forall>i. i \<in> set r \<longleftrightarrow> occurs_at t p i))) \<and>
   naiveStringMatching (js ''aaa'') (js ''aa'') = [0, 1] \<and>
   kmpStringMatching (js ''aaa'') (js ''aa'') = Some [0, 1] \<and>
   rabinKarpStringMatching (js ''aaa'') (js ''aa'') = [0, 1] \<and>
   horspoolStringMatching (js ''aaa'') (js ''aa'') = Some [0, 1]"
proof -
  have gen: "sorted_wrt (<) (naiveStringMatching t p) \<and> distinct (naiveStringMatching t p) \<and>
   (\<exists>r. kmpStringMatching t p = Some r \<and> sorted_wrt (<) r \<and> distinct r) \<and>
   sorted_wrt (<) (rabinKarpStringMatching t p) \<and> distinct (rabinKarpStringMatching t p) \<and>
   (\<exists>r. horspoolStringMatching t p = Some r \<and> sorted_wrt (<) r \<and> distinct r)"
  proof (cases "p = []")
    case True
    then show ?thesis by (simp add: naive_empty kmp_empty rabinKarp_empty horspool_empty)
  next
    case False
    then show ?thesis
      by (simp add: naive_nonempty kmp_nonempty rabinKarp_nonempty horspool_nonempty
          sorted_occurrences distinct_occurrences)
  qed
  have all: "p \<noteq> [] \<longrightarrow>
      (\<forall>i. i \<in> set (naiveStringMatching t p) \<longleftrightarrow> occurs_at t p i) \<and>
      (\<forall>i. i \<in> set (rabinKarpStringMatching t p) \<longleftrightarrow> occurs_at t p i) \<and>
      (\<exists>r. kmpStringMatching t p = Some r \<and> (\<forall>i. i \<in> set r \<longleftrightarrow> occurs_at t p i)) \<and>
      (\<exists>r. horspoolStringMatching t p = Some r \<and> (\<forall>i. i \<in> set r \<longleftrightarrow> occurs_at t p i))"
    by (simp add: naive_nonempty kmp_nonempty rabinKarp_nonempty horspool_nonempty set_occurrences)
  have e1: "naiveStringMatching (js ''aaa'') (js ''aa'') = [0, 1]" by code_simp
  have e2: "kmpStringMatching (js ''aaa'') (js ''aa'') = Some [0, 1]" by code_simp
  have e3: "rabinKarpStringMatching (js ''aaa'') (js ''aa'') = [0, 1]" by code_simp
  have e4: "horspoolStringMatching (js ''aaa'') (js ''aa'') = Some [0, 1]" by code_simp
  from gen all e1 e2 e3 e4 show ?thesis by blast
qed

text \<open>The statement of C7 at the text \<open>aaa\<close> and the pattern \<open>aa\<close>.\<close>

theorem matches_strictly_increasing_witness:
  "js ''aa'' \<noteq> [] \<and>
   (\<forall>i. i \<in> set (naiveStringMatching (js ''aaa'') (js ''aa'')) \<longleftrightarrow>
        occurs_at (js ''aaa'') (js ''aa'') i) \<and>
   (\<exists>r. kmpStringMatching (js ''aaa'') (js ''aa'') = Some r \<and> sorted_wrt (<) r \<and> distinct r)"
proof -
  have h: "js ''aa'' \<noteq> []" by (simp add: js_def)
  from matches_strictly_increasing[of "js ''aaa''" "js ''aa''"] h show ?thesis by blast
qed

text \<open>
  Claim C8. One pass of the KMP search loop never decreases the text cursor \<open>i\<close>,
  from any state and with any table; so along every run of the loop the cursor after
  \<open>k + d\<close> passes is at least the cursor after \<open>k\<close> passes.
\<close>

theorem kmp_text_cursor_never_decreases:
  "i \<le> fst (kmp_step t p lps (i, j, ms)) \<and>
   fst ((kmp_step t p lps ^^ k) s) \<le> fst ((kmp_step t p lps ^^ (k + d)) s)"
proof
  show one: "\<And>i j ms. i \<le> fst (kmp_step t p lps (i, j, ms))"
    by (simp add: kmp_step_def Let_def split: if_splits prod.splits)
  show "fst ((kmp_step t p lps ^^ k) s) \<le> fst ((kmp_step t p lps ^^ (k + d)) s)"
  proof (induction d)
    case 0
    show ?case by simp
  next
    case (Suc d)
    obtain i j ms where st: "(kmp_step t p lps ^^ (k + d)) s = (i, j, ms)"
      by (cases "(kmp_step t p lps ^^ (k + d)) s")
    have "fst ((kmp_step t p lps ^^ (k + d)) s) \<le> fst ((kmp_step t p lps ^^ (k + Suc d)) s)"
      using one[of i j ms] by (simp add: st)
    with Suc show ?case by simp
  qed
qed

text \<open>
  Claim C9, amended. The four matchers of script.js are case-sensitive: for a
  non-empty pattern each returns exactly the offsets at which the code units of the
  text equal those of the pattern, so \<open>search("Hello", "hello")\<close> is empty for each of
  them. The KMP matcher of search.js lower-cases the text and the pattern before it
  searches: it is the KMP matcher of script.js applied to \<open>toLowerCase\<close> of both
  arguments, whatever \<open>toLowerCase\<close> does, and \<open>search("Hello", "hello")\<close> is
  \<open>[0]\<close> there.
\<close>

theorem case_sensitivity:
  "(p \<noteq> [] \<longrightarrow>
      (\<forall>i. i \<in> set (naiveStringMatching t p) \<longleftrightarrow>
         i + length p \<le> length t \<and> (\<forall>j<length p. t ! (i + j) = p ! j)) \<and>
      (\<exists>r. kmpStringMatching t p = Some r \<and>
         (\<forall>i. i \<in> set r \<longleftrightarrow>
            i + length p \<le> length t \<and> (\<forall>j<length p. t ! (i + j) = p ! j))) \<and>
      (\<forall>i. i \<in> set (rabinKarpStringMatching t p) \<longleftrightarrow>
         i + length p \<le> length t \<and> (\<forall>j<length p. t ! (i + j) = p ! j)) \<and>
      (\<exists>r. horspoolStringMatching t p = Some r \<and>
         (\<forall>i. i \<in> set r \<longleftrightarrow>
            i + length p \<le> length t \<and> (\<forall>j<length p. t ! (i + j) = p ! j)))) \<and>
   naiveStringMatching (js ''Hello'') (js ''hello'') = [] \<and>
   kmpStringMatching (js ''Hello'') (js ''hello'') = Some [] \<and>
   rabinKarpStringMatching (js ''Hello'') (js ''hello'') = [] \<and>
   horspoolStringMatching (js ''Hello'') (js ''hello'') = Some [] \<and>
   kmpStringMatching_search toLowerCase t p =
     (if p = [] \<or> t = [] then Some []
      else kmpStringMatching (toLowerCase t) (toLowerCase p)) \<and>
   (toLowerCase (js ''Hello'') = js ''hello'' \<and> toLowerCase (js ''hello'') = js ''hello'' \<longrightarrow>
      kmpStringMatching_search toLowerCase (js ''Hello'') (js ''hello'') = Some [0]) \<and>
   kmpStringMatching_search toLowerCase_ascii (js ''Hello'') (js ''hello'') = Some [0]"
proof -
  have gen: "p \<noteq> [] \<longrightarrow>
      (\<forall>i. i \<in> set (naiveStringMatching t p) \<longleftrightarrow>
         i + length p \<le> length t \<and> (\<forall>j<length p. t ! (i + j) = p ! j)) \<and>
      (\<exists>r. kmpStringMatching t p = Some r \<and>
         (\<forall>i. i \<in> set r \<longleftrightarrow>
            i + length p \<le> length t \<and> (\<forall>j<length p. t ! (i + j) = p ! j))) \<and>
      (\<forall>i. i \<in> set (rabinKarpStringMatching t p) \<longleftrightarrow>
         i + length p \<le> length t \<and> (\<forall>j<length p. t ! (i + j) = p ! j)) \<and>
      (\<exists>r. horspoolStringMatching t p = Some r \<and>
         (\<forall>i. i \<in> set r \<longleftrightarrow>
            i + length p \<le> length t \<and> (\<forall>j<length p. t ! (i + j) = p ! j)))"
    by (simp add: naive_nonempty kmp_nonempty rabinKarp_nonempty horspool_nonempty
        set_occurrences occurs_at_def)
  have e1: "naiveStringMatching (js ''Hello'') (js ''hello'') = []" by code_simp
  have e2: "kmpStringMatching (js ''Hello'') (js ''hello'') = Some []" by code_simp
  have e3: "rabinKarpStringMatching (js ''Hello'') (js ''hello'') = []" by code_simp
  have e4: "horspoolStringMatching (js ''Hello'') (js ''hello'') = Some []" by code_simp
  have e5: "kmpStringMatching_search toLowerCase_ascii (js ''Hello'') (js ''hello'') = Some [0]"
    by code_simp
  have e6: "kmpStringMatching (js ''hello'') (js ''hello'') = Some [0]" by code_simp
  have ne: "js ''hello'' \<noteq> [] \<and> js ''Hello'' \<noteq> []" by (simp add: js_def)
  have e7: "toLowerCase (js ''Hello'') = js ''hello'' \<and> toLowerCase (js ''hello'') = js ''hello'' \<longrightarrow>
      kmpStringMatching_search toLowerCase (js ''Hello'') (js ''hello'') = Some [0]"
    using e6 ne by (simp add: kmp_search_lower)
  from gen e1 e2 e3 e4 e5 e7 kmp_search_lower[of toLowerCase t p] show ?thesis by blast
qed

text \<open>The statement of C9 at the text \<open>aaa\<close> and the pattern \<open>aa\<close>.\<close>

theorem case_sensitivity_witness:
  "js ''aa'' \<noteq> [] \<and>
   (\<forall>i. i \<in> set (naiveStringMatching (js ''aaa'') (js ''aa'')) \<longleftrightarrow>
      i + length (js ''aa'') \<le> length (js ''aaa'') \<and>
      (\<forall>j<length (js ''aa''). js ''aaa'' ! (i + j) = js ''aa'' ! j)) \<and>
   (toLowerCase_ascii (js ''Hello'') = js ''hello'' \<and>
    toLowerCase_ascii (js ''hello'') = js ''hello'') \<and>
   kmpStringMatching_search toLowerCase_ascii (js ''Hello'') (js ''hello'') = Some [0]"
proof -
  have h: "js ''aa'' \<noteq> []" by (simp add: js_def)
  have l: "toLowerCase_ascii (js ''Hello'') = js ''hello'' \<and>
           toLowerCase_ascii (js ''hello'') = js ''hello''"
    by (simp add: toLowerCase_ascii_def js_def)
  from case_sensitivity[of "js ''aa''" "js ''aaa''" toLowerCase_ascii] h l show ?thesis by blast
qed

text \<open>
  C9 as first stated fails for the matcher of search.js: with the lower-casing of
  ASCII strings it finds \<open>hello\<close> in \<open>Hello\<close>.
\<close>

theorem kmp_search_case_counterexample:
  "kmpStringMatching_search toLowerCase_ascii (js ''Hello'') (js ''hello'') \<noteq> Some []"
  by code_simp

text \<open>
  Claim C10. The Horspool matcher returns on every input. For a non-empty pattern the
  main loop ends from every state, each pass moves the window start forward by at
  least 1, every shift stored in the table is at least 1, and the default shift, the
  length of the pattern, is at least 1.
\<close>

theorem horspool_terminates:
  "(\<exists>r. horspoolStringMatching t p = Some r) \<and>
   (p \<noteq> [] \<longrightarrow>
      (\<exists>r. horspool_loop t p (shiftTable p) st = Some r) \<and>
      (\<forall>i ms. i + 1 \<le> fst (horspool_step t p (shiftTable p) (i, ms))) \<and>
      (\<forall>c s. shiftTable p c = Some s \<longrightarrow> 1 \<le> s) \<and>
      1 \<le> length p)"
proof (intro conjI impI allI)
  show "\<exists>r. horspoolStringMatching t p = Some r"
    by (cases "p = []") (simp_all add: horspool_empty horspool_nonempty)
next
  assume ne: "p \<noteq> []"
  show "\<exists>r. horspool_loop t p (shiftTable p) st = Some r"
    by (rule horspool_loop_terminates[OF ne])
  show "1 \<le> length p" using ne by (simp add: Suc_le_eq)
  fix i ms
  show "i + 1 \<le> fst (horspool_step t p (shiftTable p) (i, ms))"
    by (rule horspool_step_advances[OF ne])
next
  fix c s assume "p \<noteq> []" "shiftTable p c = Some s"
  then show "1 \<le> s" using shiftTable_range[of p c s] by simp
qed

text \<open>The statement of C10 at the text \<open>aaa\<close> and the pattern \<open>aa\<close>.\<close>

theorem horspool_terminates_witness:
  "js ''aa'' \<noteq> [] \<and>
   (\<exists>r. horspool_loop (js ''aaa'') (js ''aa'') (shiftTable (js ''aa'')) (0, []) = Some r) \<and>
   shiftTable (js ''aa'') 0x61 = Some 1 \<and> (1::nat) \<le> 1"
proof -
  have h: "js ''aa'' \<noteq> []" by (simp add: js_def)
  have s: "shiftTable (js ''aa'') 0x61 = Some 1" by (simp add: shiftTable_def js_def)
  from horspool_terminates[of "js ''aaa''" "js ''aa''" "(0, [])"] h s show ?thesis by blast
qed

end
